theory Spec2Isabelle
  imports Complex_Main "HOL-Library.Word"
begin

unbundle bit_operations_syntax

section \<open>Faults, checked array access and loops\<close>

text \<open>
  The annealers of \<^verbatim>\<open>sa.pyx\<close> and \<^verbatim>\<open>qmc.pyx\<close> are compiled with
  \<^verbatim>\<open>boundscheck(False)\<close> and \<^verbatim>\<open>wraparound(False)\<close>: an index outside an array is
  undefined behaviour in the typed accesses and an \<^verbatim>\<open>IndexError\<close> in the untyped ones.
  Both are the fault \<open>OutOfBounds\<close> here. \<^verbatim>\<open>qmc.pyx\<close> does not set \<^verbatim>\<open>cdivision\<close>, so
  a C division by zero raises \<^verbatim>\<open>ZeroDivisionError\<close> there.

  Floating-point numbers are modelled as exact reals: rounding and overflow are outside the
  model. The one exception is the section on the single-precision locals of \<^verbatim>\<open>Anneal\<close>,
  where the conversion to single precision is written out.
\<close>

datatype fault = OutOfBounds | ZeroDivisionError

type_synonym 'a result = "fault + 'a"

definition bindR :: "'a result \<Rightarrow> ('a \<Rightarrow> 'b result) \<Rightarrow> 'b result" where
  "bindR m f = (case m of Inl e \<Rightarrow> Inl e | Inr x \<Rightarrow> f x)"

definition rd :: "'a list \<Rightarrow> nat \<Rightarrow> 'a result" where
  "rd xs i = (if i < length xs then Inr (xs ! i) else Inl OutOfBounds)"

definition rdi :: "'a list \<Rightarrow> int \<Rightarrow> 'a result" where
  "rdi xs i = (if i < 0 then Inl OutOfBounds else rd xs (nat i))"

definition wr :: "'a list \<Rightarrow> nat \<Rightarrow> 'a \<Rightarrow> 'a list result" where
  "wr xs i v = (if i < length xs then Inr (xs[i := v]) else Inl OutOfBounds)"

text \<open>A two-dimensional array is the list of its rows: \<open>rd2 m k i\<close> is \<^verbatim>\<open>m[k,i]\<close>.\<close>

definition rd2 :: "'a list list \<Rightarrow> nat \<Rightarrow> nat \<Rightarrow> 'a result" where
  "rd2 m k i = bindR (rd m k) (\<lambda>row. rd row i)"

definition wr2 :: "'a list list \<Rightarrow> nat \<Rightarrow> nat \<Rightarrow> 'a \<Rightarrow> 'a list list result" where
  "wr2 m k i v = bindR (rd m k) (\<lambda>row. bindR (wr row i v) (\<lambda>row'. wr m k row'))"

text \<open>\<^verbatim>\<open>for x in xs: body\<close> over a state, stopping at the first fault.\<close>

fun foldR :: "('a \<Rightarrow> 's \<Rightarrow> 's result) \<Rightarrow> 'a list \<Rightarrow> 's \<Rightarrow> 's result" where
  "foldR f [] s = Inr s"
| "foldR f (x # xs) s = (case f x s of Inl e \<Rightarrow> Inl e | Inr s' \<Rightarrow> foldR f xs s')"

section \<open>Random sources and the coupling graph\<close>

text \<open>
  The generator \<^verbatim>\<open>rng\<close> handed to the annealers is a state of type \<open>'g\<close> with the three
  operations the code calls on it. \<^verbatim>\<open>crand\<close> is libc's \<^verbatim>\<open>rand\<close> with its hidden state
  \<open>'c\<close>; it returns an integer between 0 and \<^verbatim>\<open>RAND_MAX\<close>, both included. libc's constant
  \<^verbatim>\<open>RAND_MAX\<close> is a parameter.
\<close>

record 'g rng =
  rng_permutation :: "nat list \<Rightarrow> 'g \<Rightarrow> nat list \<times> 'g"
  rng_rand :: "nat \<Rightarrow> 'g \<Rightarrow> real list \<times> 'g"
  rng_uniform :: "'g \<Rightarrow> real \<times> 'g"

record 'c libc =
  crand :: "'c \<Rightarrow> nat \<times> 'c"
  RAND_MAX :: nat

text \<open>
  \<^verbatim>\<open>nbs[sidx,si,0]\<close> (converted by \<^verbatim>\<open>int\<close>) and \<^verbatim>\<open>nbs[sidx,si,1]\<close>: row \<open>sidx\<close> of the
  graph is the list of the pairs (neighbour index, coupling) of spin \<open>sidx\<close>.
  \<^verbatim>\<open>maxnb = nbs[0].shape[0]\<close> is the common length of the rows.
\<close>

type_synonym nbs = "(int \<times> real) list list"

definition maxnb :: "nbs \<Rightarrow> nat" where
  "maxnb nbs = (case nbs of [] \<Rightarrow> 0 | row # _ \<Rightarrow> length row)"

text \<open>
  \<^verbatim>\<open>exp(ediff/temp) > u\<close> where the division is C's or numpy's: dividing by zero gives
  an infinity or NaN, whose exponential is an infinity, zero or NaN, and a comparison with
  NaN is false.
\<close>

definition exp_div_gt :: "real \<Rightarrow> real \<Rightarrow> real \<Rightarrow> bool" where
  "exp_div_gt ediff temp u =
     (if temp = 0 then (if ediff > 0 then True else if ediff < 0 then 0 > u else False)
      else exp (ediff / temp) > u)"

text \<open>\<^verbatim>\<open>svec[sidx] *= -1\<close>\<close>

definition flip :: "real list \<Rightarrow> nat \<Rightarrow> real list result" where
  "flip svec sidx = bindR (rd svec sidx) (\<lambda>s. wr svec sidx (s * (- 1)))"

section \<open>The sequential classical annealer (\<^verbatim>\<open>Anneal\<close>)\<close>

text \<open>Lines 82-90: one pass of the neighbour loop.\<close>

definition Anneal_nb :: "real list \<Rightarrow> nbs \<Rightarrow> nat \<Rightarrow> nat \<Rightarrow> real \<Rightarrow> real result" where
  "Anneal_nb svec nbs sidx si ediff =
     bindR (rd2 nbs sidx si) (\<lambda>(spinidx, jval).
       if spinidx = int sidx
       then bindR (rd svec sidx) (\<lambda>s. Inr (ediff + - 2 * s * jval))
       else bindR (rd svec sidx) (\<lambda>s.
            bindR (rdi svec spinidx) (\<lambda>t. Inr (ediff + - 2 * s * (jval * t)))))"

text \<open>Lines 80-90: \<^verbatim>\<open>ediff\<close> when the neighbour loop ends; it starts from 0.\<close>

definition Anneal_ediff :: "real list \<Rightarrow> nbs \<Rightarrow> nat \<Rightarrow> real result" where
  "Anneal_ediff svec nbs sidx = foldR (Anneal_nb svec nbs sidx) [0..<maxnb nbs] 0"

text \<open>
  Lines 78-97: the visit of one spin. \<^verbatim>\<open>crand\<close> is called only in the \<^verbatim>\<open>elif\<close>.
\<close>

definition Anneal_visit ::
  "'c libc \<Rightarrow> nbs \<Rightarrow> real \<Rightarrow> nat \<Rightarrow> real list \<times> 'c \<Rightarrow> (real list \<times> 'c) result" where
  "Anneal_visit lc nbs temp sidx st = (case st of (svec, c) \<Rightarrow>
     bindR (Anneal_ediff svec nbs sidx) (\<lambda>ediff.
       if ediff \<ge> 0 then bindR (flip svec sidx) (\<lambda>svec'. Inr (svec', c))
       else (case crand lc c of (r, c') \<Rightarrow>
         if exp_div_gt ediff temp (real r / real (RAND_MAX lc))
         then bindR (flip svec sidx) (\<lambda>svec'. Inr (svec', c'))
         else Inr (svec, c'))))"

text \<open>Lines 76-98: one Monte Carlo step, then the reshuffle of the visiting order.\<close>

definition Anneal_sweep ::
  "'g rng \<Rightarrow> 'c libc \<Rightarrow> nbs \<Rightarrow> real \<Rightarrow> nat \<Rightarrow> real list \<times> nat list \<times> 'g \<times> 'c
     \<Rightarrow> (real list \<times> nat list \<times> 'g \<times> 'c) result" where
  "Anneal_sweep ops lc nbs temp step st = (case st of (svec, sidx_shuff, g, c) \<Rightarrow>
     bindR (foldR (Anneal_visit lc nbs temp) sidx_shuff (svec, c)) (\<lambda>(svec', c').
       case rng_permutation ops sidx_shuff g of (shuff', g') \<Rightarrow> Inr (svec', shuff', g', c')))"

text \<open>Lines 72-98: one temperature of the schedule, \<^verbatim>\<open>mcsteps\<close> steps.\<close>

definition Anneal_temp ::
  "'g rng \<Rightarrow> 'c libc \<Rightarrow> nbs \<Rightarrow> int \<Rightarrow> real \<Rightarrow> real list \<times> nat list \<times> 'g \<times> 'c
     \<Rightarrow> (real list \<times> nat list \<times> 'g \<times> 'c) result" where
  "Anneal_temp ops lc nbs mcsteps temp st =
     foldR (Anneal_sweep ops lc nbs temp) [0..<nat mcsteps] st"

definition Anneal ::
  "'g rng \<Rightarrow> 'c libc \<Rightarrow> real list \<Rightarrow> int \<Rightarrow> real list \<Rightarrow> nbs \<Rightarrow> 'g \<Rightarrow> 'c \<Rightarrow> real list result" where
  "Anneal ops lc sched mcsteps svec nbs g c =
     (case rng_permutation ops [0..<length svec] g of (sidx_shuff, g') \<Rightarrow>
        bindR (foldR (Anneal_temp ops lc nbs mcsteps) sched (svec, sidx_shuff, g', c))
          (\<lambda>(svec', _). Inr svec'))"

section \<open>The single-precision locals of \<^verbatim>\<open>Anneal\<close>\<close>

text \<open>
  \<^verbatim>\<open>Anneal\<close> declares \<^verbatim>\<open>temp\<close>, \<^verbatim>\<open>jval\<close> and \<^verbatim>\<open>ediff\<close> as \<^verbatim>\<open>cdef float\<close>
  (lines 61, 66 and 67): a value assigned to one of them is converted to single precision,
  and \<^verbatim>\<open>ediff/temp\<close>, whose two operands are single precision, is a single-precision
  division. Everything else is double precision: the arrays \<^verbatim>\<open>sched\<close>, \<^verbatim>\<open>svec\<close> and
  \<^verbatim>\<open>nbs\<close>, the literal \<^verbatim>\<open>-2.0\<close>, the sum and the products of \<^verbatim>\<open>ediff += ...\<close>,
  \<^verbatim>\<open>cexp\<close> and \<^verbatim>\<open>crand()/float(RAND_MAX)\<close>. \<^verbatim>\<open>Anneal_multispin\<close> accumulates the energy
  differences in the double-precision array \<^verbatim>\<open>ediffs\<close> (line 216).

  The definitions of this section are those of the previous section with the conversion to
  single precision, \<open>cfloat\<close>, written where the code converts; the double-precision
  operations stay exact. With the identity for \<open>cfloat\<close> they are the definitions of the
  previous section.
\<close>

text \<open>Rounding to the nearest integer, a tie going to the even one.\<close>

definition round_even :: "real \<Rightarrow> int" where
  "round_even y =
     (let f = \<lfloor>y\<rfloor> in
      if y - of_int f < 1 / 2 then f
      else if 1 / 2 < y - of_int f then f + 1
      else if even f then f else f + 1)"

text \<open>
  The conversion of a double to single precision (IEEE 754 binary32, rounding to nearest,
  ties to even): a number \<open>x\<close> whose absolute value is at least \<open>2 ^ e\<close> and below
  \<open>2 ^ (e + 1)\<close> is rounded to a multiple of \<open>2 ^ (e - 23)\<close>. The bounds of the exponent
  (overflow to infinity, subnormal numbers) are outside the model.
\<close>

definition to_float32 :: "real \<Rightarrow> real" where
  "to_float32 x =
     (if x = 0 then 0
      else (let ulp = 2 powr of_int (\<lfloor>log 2 \<bar>x\<bar>\<rfloor> - 23)
            in ulp * of_int (round_even (x / ulp))))"

text \<open>Line 94: \<^verbatim>\<open>cexp(ediff/temp) > u\<close> with the single-precision quotient.\<close>

definition exp_div32_gt :: "(real \<Rightarrow> real) \<Rightarrow> real \<Rightarrow> real \<Rightarrow> real \<Rightarrow> bool" where
  "exp_div32_gt cfloat ediff temp u =
     (if temp = 0 then exp_div_gt ediff temp u else exp (cfloat (ediff / temp)) > u)"

text \<open>
  Lines 82-90: one pass of the neighbour loop; \<^verbatim>\<open>jval\<close> is converted at line 84 and
  \<^verbatim>\<open>ediff\<close> at lines 87 and 90.
\<close>

definition Anneal_nb32 ::
  "(real \<Rightarrow> real) \<Rightarrow> real list \<Rightarrow> nbs \<Rightarrow> nat \<Rightarrow> nat \<Rightarrow> real \<Rightarrow> real result" where
  "Anneal_nb32 cfloat svec nbs sidx si ediff =
     bindR (rd2 nbs sidx si) (\<lambda>(spinidx, jval).
       if spinidx = int sidx
       then bindR (rd svec sidx) (\<lambda>s. Inr (cfloat (ediff + - 2 * s * cfloat jval)))
       else bindR (rd svec sidx) (\<lambda>s.
            bindR (rdi svec spinidx) (\<lambda>t. Inr (cfloat (ediff + - 2 * s * (cfloat jval * t))))))"

definition Anneal_ediff32 :: "(real \<Rightarrow> real) \<Rightarrow> real list \<Rightarrow> nbs \<Rightarrow> nat \<Rightarrow> real result" where
  "Anneal_ediff32 cfloat svec nbs sidx = foldR (Anneal_nb32 cfloat svec nbs sidx) [0..<maxnb nbs] 0"

text \<open>Lines 78-97: the visit of one spin; \<open>temp\<close> is the converted temperature.\<close>

definition Anneal_visit32 ::
  "(real \<Rightarrow> real) \<Rightarrow> 'c libc \<Rightarrow> nbs \<Rightarrow> real \<Rightarrow> nat \<Rightarrow> real list \<times> 'c
     \<Rightarrow> (real list \<times> 'c) result" where
  "Anneal_visit32 cfloat lc nbs temp sidx st = (case st of (svec, c) \<Rightarrow>
     bindR (Anneal_ediff32 cfloat svec nbs sidx) (\<lambda>ediff.
       if ediff \<ge> 0 then bindR (flip svec sidx) (\<lambda>svec'. Inr (svec', c))
       else (case crand lc c of (r, c') \<Rightarrow>
         if exp_div32_gt cfloat ediff temp (real r / real (RAND_MAX lc))
         then bindR (flip svec sidx) (\<lambda>svec'. Inr (svec', c'))
         else Inr (svec, c'))))"

definition Anneal_sweep32 ::
  "(real \<Rightarrow> real) \<Rightarrow> 'g rng \<Rightarrow> 'c libc \<Rightarrow> nbs \<Rightarrow> real \<Rightarrow> nat
     \<Rightarrow> real list \<times> nat list \<times> 'g \<times> 'c \<Rightarrow> (real list \<times> nat list \<times> 'g \<times> 'c) result" where
  "Anneal_sweep32 cfloat ops lc nbs temp step st = (case st of (svec, sidx_shuff, g, c) \<Rightarrow>
     bindR (foldR (Anneal_visit32 cfloat lc nbs temp) sidx_shuff (svec, c)) (\<lambda>(svec', c').
       case rng_permutation ops sidx_shuff g of (shuff', g') \<Rightarrow> Inr (svec', shuff', g', c')))"

text \<open>Lines 72-98: one temperature of the schedule; line 74 converts it.\<close>

definition Anneal_temp32 ::
  "(real \<Rightarrow> real) \<Rightarrow> 'g rng \<Rightarrow> 'c libc \<Rightarrow> nbs \<Rightarrow> int \<Rightarrow> real
     \<Rightarrow> real list \<times> nat list \<times> 'g \<times> 'c \<Rightarrow> (real list \<times> nat list \<times> 'g \<times> 'c) result" where
  "Anneal_temp32 cfloat ops lc nbs mcsteps temp st =
     foldR (Anneal_sweep32 cfloat ops lc nbs (cfloat temp)) [0..<nat mcsteps] st"

definition Anneal32 ::
  "(real \<Rightarrow> real) \<Rightarrow> 'g rng \<Rightarrow> 'c libc \<Rightarrow> real list \<Rightarrow> int \<Rightarrow> real list \<Rightarrow> nbs \<Rightarrow> 'g \<Rightarrow> 'c
     \<Rightarrow> real list result" where
  "Anneal32 cfloat ops lc sched mcsteps svec nbs g c =
     (case rng_permutation ops [0..<length svec] g of (sidx_shuff, g') \<Rightarrow>
        bindR (foldR (Anneal_temp32 cfloat ops lc nbs mcsteps) sched (svec, sidx_shuff, g', c))
          (\<lambda>(svec', _). Inr svec'))"

section \<open>The parallel classical annealer (\<^verbatim>\<open>Anneal_parallel\<close>)\<close>

text \<open>
  The threads of \<^verbatim>\<open>prange\<close> are modelled by the execution in which the spins of a sweep
  are visited one after the other in ascending order (the static partition run by one
  worker), whatever \<^verbatim>\<open>nthreads\<close> is; the slot \<^verbatim>\<open>ediffs[sidx]\<close> is the accumulator of
  the visit.
\<close>

text \<open>Lines 153-160: one pass of the neighbour loop.\<close>

definition Anneal_parallel_nb :: "real list \<Rightarrow> nbs \<Rightarrow> nat \<Rightarrow> nat \<Rightarrow> real \<Rightarrow> real result" where
  "Anneal_parallel_nb svec nbs sidx si ediff =
     bindR (rd2 nbs sidx si) (\<lambda>(spinidx, jval).
       if spinidx = int sidx
       then bindR (rd svec sidx) (\<lambda>s. Inr (ediff + - 2 * s * jval))
       else bindR (rd svec sidx) (\<lambda>s.
            bindR (rdi svec spinidx) (\<lambda>t. Inr (ediff + - 2 * s * (jval * t)))))"

text \<open>Lines 149-160: \<^verbatim>\<open>ediffs[sidx]\<close> is reset, then accumulated over the neighbours.\<close>

definition Anneal_parallel_ediff :: "real list \<Rightarrow> nbs \<Rightarrow> nat \<Rightarrow> real result" where
  "Anneal_parallel_ediff svec nbs sidx =
     foldR (Anneal_parallel_nb svec nbs sidx) [0..<maxnb nbs] 0"

text \<open>Lines 148-165: the visit of one spin.\<close>

definition Anneal_parallel_visit ::
  "'c libc \<Rightarrow> nbs \<Rightarrow> real \<Rightarrow> nat \<Rightarrow> real list \<times> 'c \<Rightarrow> (real list \<times> 'c) result" where
  "Anneal_parallel_visit lc nbs temp sidx st = (case st of (svec, c) \<Rightarrow>
     bindR (Anneal_parallel_ediff svec nbs sidx) (\<lambda>ediff.
       if ediff > 0 then bindR (flip svec sidx) (\<lambda>svec'. Inr (svec', c))
       else (case crand lc c of (r, c') \<Rightarrow>
         if exp_div_gt ediff temp (real r / real (RAND_MAX lc))
         then bindR (flip svec sidx) (\<lambda>svec'. Inr (svec', c'))
         else Inr (svec, c'))))"

definition Anneal_parallel_sweep ::
  "'c libc \<Rightarrow> nbs \<Rightarrow> nat \<Rightarrow> real \<Rightarrow> nat \<Rightarrow> real list \<times> 'c \<Rightarrow> (real list \<times> 'c) result" where
  "Anneal_parallel_sweep lc nbs nspins temp step st =
     foldR (Anneal_parallel_visit lc nbs temp) [0..<nspins] st"

definition Anneal_parallel_temp ::
  "'c libc \<Rightarrow> nbs \<Rightarrow> nat \<Rightarrow> int \<Rightarrow> real \<Rightarrow> real list \<times> 'c \<Rightarrow> (real list \<times> 'c) result" where
  "Anneal_parallel_temp lc nbs nspins mcsteps temp st =
     foldR (Anneal_parallel_sweep lc nbs nspins temp) [0..<nat mcsteps] st"

definition Anneal_parallel ::
  "'c libc \<Rightarrow> real list \<Rightarrow> int \<Rightarrow> real list \<Rightarrow> nbs \<Rightarrow> int \<Rightarrow> 'c \<Rightarrow> real list result" where
  "Anneal_parallel lc sched mcsteps svec nbs nthreads c =
     bindR (foldR (Anneal_parallel_temp lc nbs (length svec) mcsteps) sched (svec, c))
       (\<lambda>(svec', _). Inr svec')"

section \<open>The multispin encoding (\<^verbatim>\<open>Anneal_multispin\<close>, entry and exit)\<close>

text \<open>\<^verbatim>\<open>getbit(s, k)\<close>: \<^verbatim>\<open>(s >> k) & 1\<close> as a C truth value.\<close>

definition getbit :: "64 word \<Rightarrow> nat \<Rightarrow> bool" where
  "getbit s k = (drop_bit k s AND 1 \<noteq> 0)"

text \<open>Number of columns of a matrix (\<^verbatim>\<open>svec_mat.shape[1]\<close>); a matrix is rectangular.\<close>

definition ncols :: "'a list list \<Rightarrow> nat" where
  "ncols m = (case m of [] \<Rightarrow> 0 | row # _ \<Rightarrow> length row)"

text \<open>
  Lines 221-227: for spin \<open>si\<close>, every row \<open>k\<close> in ascending order shifts the word left and
  sets the new lowest bit when \<^verbatim>\<open>svec_mat[k,si]\<close> is truthy (nonzero).
\<close>

definition pack_bit :: "real list list \<Rightarrow> nat \<Rightarrow> nat \<Rightarrow> 64 word list \<Rightarrow> 64 word list result" where
  "pack_bit svec_mat si k svec =
     bindR (rd svec si) (\<lambda>w.
     bindR (wr svec si (push_bit 1 w)) (\<lambda>svec1.
     bindR (rd2 svec_mat k si) (\<lambda>x.
       if x \<noteq> 0 then bindR (rd svec1 si) (\<lambda>w1. wr svec1 si (w1 XOR 1))
       else Inr svec1)))"

definition pack_col :: "real list list \<Rightarrow> nat \<Rightarrow> 64 word list \<Rightarrow> 64 word list result" where
  "pack_col svec_mat si svec = foldR (pack_bit svec_mat si) [0..<length svec_mat] svec"

definition pack :: "real list list \<Rightarrow> 64 word list result" where
  "pack svec_mat =
     foldR (pack_col svec_mat) [0..<ncols svec_mat] (replicate (ncols svec_mat) 0)"

text \<open>
  Line 284: \<^verbatim>\<open>bin(w)[2:]\<close> is the binary numeral of \<open>w\<close> without leading zeros
  (\<^verbatim>\<open>'0'\<close> for 0), and \<^verbatim>\<open>rjust(64,'0')\<close> pads it on the left to 64 characters.
  \<^verbatim>\<open>float\<close> of a digit character is its value.
\<close>

definition bin_digit :: "nat \<Rightarrow> char" where
  "bin_digit d = (if d = 1 then CHR ''1'' else CHR ''0'')"

function bin_digits :: "nat \<Rightarrow> string" where
  "bin_digits n =
     (if n < 2 then [bin_digit n] else bin_digits (n div 2) @ [bin_digit (n mod 2)])"
  by pat_completeness auto
termination
  by (relation "measure id") auto

definition rjust :: "nat \<Rightarrow> char \<Rightarrow> string \<Rightarrow> string" where
  "rjust width fillchar s = replicate (width - length s) fillchar @ s"

definition bin64 :: "64 word \<Rightarrow> string" where
  "bin64 w = rjust 64 CHR ''0'' (bin_digits (unat w))"

definition float_of_digit :: "char \<Rightarrow> real" where
  "float_of_digit ch = (if ch = CHR ''1'' then 1 else 0)"

text \<open>Lines 284-286: the body of the unpacking loop for one spin index.\<close>

definition unpack_cell :: "string \<Rightarrow> nat \<Rightarrow> nat \<Rightarrow> real list list \<Rightarrow> real list list result" where
  "unpack_cell state sidx k svec_mat =
     bindR (rd state k) (\<lambda>ch. wr2 svec_mat k sidx (float_of_digit ch))"

definition unpack_col :: "64 word list \<Rightarrow> nat \<Rightarrow> real list list \<Rightarrow> real list list result" where
  "unpack_col svec sidx svec_mat =
     bindR (rd svec sidx) (\<lambda>w.
       foldR (unpack_cell (bin64 w) sidx) [0..<length (bin64 w)] svec_mat)"

text \<open>Line 283: the spin indices the unpacking loop visits, \<^verbatim>\<open>xrange(svec.size+1)\<close>.\<close>

definition unpack_indices :: "64 word list \<Rightarrow> nat list" where
  "unpack_indices svec = [0..<length svec + 1]"

definition unpack :: "64 word list \<Rightarrow> real list list \<Rightarrow> real list list result" where
  "unpack svec svec_mat = foldR (unpack_col svec) (unpack_indices svec) svec_mat"

section \<open>The multispin annealer (\<^verbatim>\<open>Anneal_multispin\<close>)\<close>

text \<open>
  Lines 245-250 and 256-261: the loop over the 64 bits of a word \<open>w\<close>, which is the spin's
  own word for a self-connection and the XOR with the neighbour's word otherwise.
  \<^verbatim>\<open>ediffs\<close> has 64 entries.
\<close>

definition bits_loop :: "64 word \<Rightarrow> real \<Rightarrow> real list \<Rightarrow> real list" where
  "bits_loop w jval ediffs =
     fold (\<lambda>k e. if \<not> getbit w (63 - k) then e[k := e ! k - 2 * jval]
                  else e[k := e ! k + 2 * jval]) [0..<64] ediffs"

text \<open>Lines 239-261: one pass of the neighbour loop.\<close>

definition multispin_nb ::
  "64 word list \<Rightarrow> nbs \<Rightarrow> nat \<Rightarrow> nat \<Rightarrow> real list \<Rightarrow> real list result" where
  "multispin_nb svec nbs sidx si ediffs =
     bindR (rd2 nbs sidx si) (\<lambda>(spinidx, jval).
       if spinidx = int sidx
       then bindR (rd svec sidx) (\<lambda>w. Inr (bits_loop w jval ediffs))
       else bindR (rd svec sidx) (\<lambda>w.
            bindR (rdi svec spinidx) (\<lambda>v. Inr (bits_loop (w XOR v) jval ediffs))))"

text \<open>
  Lines 237-261: \<^verbatim>\<open>ediffs\<close> when the neighbour loop ends; it is all zeros before
  (line 216, and line 277 after every visit).
\<close>

definition multispin_ediffs :: "64 word list \<Rightarrow> nbs \<Rightarrow> nat \<Rightarrow> real list result" where
  "multispin_ediffs svec nbs sidx =
     foldR (multispin_nb svec nbs sidx) [0..<maxnb nbs] (replicate 64 0)"

text \<open>Line 264: \<^verbatim>\<open>np.exp(ediffs/temp) > rands\<close>, entry by entry.\<close>

definition multispin_sign :: "real list \<Rightarrow> real \<Rightarrow> real list \<Rightarrow> bool list" where
  "multispin_sign ediffs temp rands = map2 (\<lambda>e r. exp_div_gt e temp r) ediffs rands"

text \<open>Lines 266-273: the flip mask, built from \<^verbatim>\<open>sign[0]\<close> to \<^verbatim>\<open>sign[63]\<close>.\<close>

definition flipmask_bit :: "bool list \<Rightarrow> nat \<Rightarrow> 64 word \<Rightarrow> 64 word result" where
  "flipmask_bit sign k flipmask =
     bindR (rd sign k) (\<lambda>b. Inr (if b then push_bit 1 flipmask XOR 1 else push_bit 1 flipmask))"

definition build_flipmask :: "bool list \<Rightarrow> 64 word result" where
  "build_flipmask sign =
     bindR (rd sign 0) (\<lambda>b0. foldR (flipmask_bit sign) [1..<64] (if b0 then 1 else 0))"

text \<open>Lines 235-279: the visit of one spin, for the 64 replicas at once.\<close>

definition multispin_visit ::
  "'g rng \<Rightarrow> nbs \<Rightarrow> real \<Rightarrow> nat \<Rightarrow> 64 word list \<times> real list \<times> 'g
     \<Rightarrow> (64 word list \<times> real list \<times> 'g) result" where
  "multispin_visit ops nbs temp sidx st = (case st of (svec, rands, g) \<Rightarrow>
     bindR (multispin_ediffs svec nbs sidx) (\<lambda>ediffs.
     bindR (build_flipmask (multispin_sign ediffs temp rands)) (\<lambda>flipmask.
     bindR (rd svec sidx) (\<lambda>w.
     bindR (wr svec sidx (w XOR flipmask)) (\<lambda>svec'.
       case rng_rand ops 64 g of (rands', g') \<Rightarrow> Inr (svec', rands', g'))))))"

text \<open>Lines 233-281: one Monte Carlo step, then the reshuffle of the visiting order.\<close>

definition multispin_sweep ::
  "'g rng \<Rightarrow> nbs \<Rightarrow> real \<Rightarrow> nat \<Rightarrow> 64 word list \<times> real list \<times> nat list \<times> 'g
     \<Rightarrow> (64 word list \<times> real list \<times> nat list \<times> 'g) result" where
  "multispin_sweep ops nbs temp step st = (case st of (svec, rands, sidx_shuff, g) \<Rightarrow>
     bindR (foldR (multispin_visit ops nbs temp) sidx_shuff (svec, rands, g))
       (\<lambda>(svec', rands', g').
          case rng_permutation ops sidx_shuff g' of (shuff', g'') \<Rightarrow>
            Inr (svec', rands', shuff', g'')))"

definition multispin_temp ::
  "'g rng \<Rightarrow> nbs \<Rightarrow> int \<Rightarrow> real \<Rightarrow> 64 word list \<times> real list \<times> nat list \<times> 'g
     \<Rightarrow> (64 word list \<times> real list \<times> nat list \<times> 'g) result" where
  "multispin_temp ops nbs mcsteps temp st =
     foldR (multispin_sweep ops nbs temp) [0..<nat mcsteps] st"

text \<open>Lines 229-281: the annealing loop on the packed words.\<close>

definition multispin_loop ::
  "'g rng \<Rightarrow> nbs \<Rightarrow> real list \<Rightarrow> int \<Rightarrow> 64 word list \<times> real list \<times> nat list \<times> 'g
     \<Rightarrow> (64 word list \<times> real list \<times> nat list \<times> 'g) result" where
  "multispin_loop ops nbs sched mcsteps st = foldR (multispin_temp ops nbs mcsteps) sched st"

definition Anneal_multispin ::
  "'g rng \<Rightarrow> real list \<Rightarrow> int \<Rightarrow> real list list \<Rightarrow> nbs \<Rightarrow> 'g \<Rightarrow> real list list result" where
  "Anneal_multispin ops sched mcsteps svec_mat nbs g =
     (case rng_rand ops 64 g of (rands, g1) \<Rightarrow>
      case rng_permutation ops [0..<ncols svec_mat] g1 of (sidx_shuff, g2) \<Rightarrow>
        bindR (pack svec_mat) (\<lambda>svec.
        bindR (multispin_loop ops nbs sched mcsteps (svec, rands, sidx_shuff, g2))
          (\<lambda>(svec', _). unpack svec' svec_mat)))"

section \<open>The path-integral quantum annealer (\<^verbatim>\<open>qmc.pyx\<close>)\<close>

text \<open>Lines 57-64: one pass of the neighbour loop of \<^verbatim>\<open>QuantumMetropolisAccept\<close>.\<close>

definition Quantum_nb :: "real list \<Rightarrow> nat \<Rightarrow> int \<times> real \<Rightarrow> real \<Rightarrow> real result" where
  "Quantum_nb svec sidx p ediff = (case p of (spinidx, jval) \<Rightarrow>
       if spinidx = int sidx
       then bindR (rd svec sidx) (\<lambda>s. Inr (ediff + - 2 * s * jval))
       else bindR (rd svec sidx) (\<lambda>s.
            bindR (rdi svec spinidx) (\<lambda>t. Inr (ediff + - 2 * s * (jval * t)))))"

text \<open>Lines 55-64: \<^verbatim>\<open>ediff\<close> when the neighbour loop ends.\<close>

definition Quantum_ediff_nbs :: "real list \<Rightarrow> nat \<Rightarrow> (int \<times> real) list \<Rightarrow> real result" where
  "Quantum_ediff_nbs svec sidx nb_pairs = foldR (Quantum_nb svec sidx) nb_pairs 0"

text \<open>Lines 66-74: the slices to the left and to the right of slice \<open>tidx\<close> among \<open>P\<close>.\<close>

definition trotter_nbs :: "int \<Rightarrow> int \<Rightarrow> int \<times> int" where
  "trotter_nbs P tidx =
     (if tidx = 0 then (P - 1, 1)
      else if tidx = P - 1 then (P - 2, 0)
      else (tidx - 1, tidx + 1))"

text \<open>Lines 55-77: \<^verbatim>\<open>ediff\<close> when the decision is taken.\<close>

definition Quantum_ediff ::
  "real list \<Rightarrow> real list \<Rightarrow> nat \<Rightarrow> nat \<Rightarrow> (int \<times> real) list \<Rightarrow> real \<Rightarrow> real result" where
  "Quantum_ediff svec tvec sidx tidx nb_pairs jperp =
     bindR (Quantum_ediff_nbs svec sidx nb_pairs) (\<lambda>ediff0.
     case trotter_nbs (int (length tvec)) (int tidx) of (tleft, tright) \<Rightarrow>
       bindR (rd svec sidx) (\<lambda>s.
       bindR (rdi tvec tleft) (\<lambda>l.
       bindR (rdi tvec tright) (\<lambda>r.
         Inr (ediff0 + - 2 * s * (jperp * l) + - 2 * s * (jperp * r))))))"

text \<open>
  Lines 78-84: the decision. \<^verbatim>\<open>ediff/T\<close> is a checked C division, evaluated before the
  draw.
\<close>

definition Quantum_decide :: "'g rng \<Rightarrow> real \<Rightarrow> real \<Rightarrow> 'g \<Rightarrow> (bool \<times> 'g) result" where
  "Quantum_decide ops ediff T g =
     (if ediff > 0 then Inr (True, g)
      else if T = 0 then Inl ZeroDivisionError
      else (case rng_uniform ops g of (u, g') \<Rightarrow> Inr (exp (ediff / T) > u, g')))"

definition QuantumMetropolisAccept ::
  "'g rng \<Rightarrow> real list \<Rightarrow> real list \<Rightarrow> nat \<Rightarrow> nat \<Rightarrow> (int \<times> real) list \<Rightarrow> real \<Rightarrow> real \<Rightarrow> 'g
     \<Rightarrow> (bool \<times> 'g) result" where
  "QuantumMetropolisAccept ops svec tvec sidx tidx nb_pairs jperp T g =
     bindR (Quantum_ediff svec tvec sidx tidx nb_pairs jperp) (\<lambda>ediff.
       Quantum_decide ops ediff T g)"

text \<open>
  \<^verbatim>\<open>configurations\<close> has one row for each spin and one column for each Trotter slice.
  \<^verbatim>\<open>configurations[:, islice]\<close> is a column of it.
\<close>

definition column :: "real list list \<Rightarrow> nat \<Rightarrow> real list result" where
  "column m i = foldR (\<lambda>row acc. bindR (rd row i) (\<lambda>x. Inr (acc @ [x]))) m []"

text \<open>Lines 128-136: the attempt to flip one spin of one slice.\<close>

definition Quantum_spin ::
  "'g rng \<Rightarrow> nbs \<Rightarrow> real \<Rightarrow> real \<Rightarrow> nat \<Rightarrow> nat \<Rightarrow> real list list \<times> 'g
     \<Rightarrow> (real list list \<times> 'g) result" where
  "Quantum_spin ops neighbors perpJ T islice ispin st = (case st of (configurations, g) \<Rightarrow>
     bindR (column configurations islice) (\<lambda>svec.
     bindR (rd configurations ispin) (\<lambda>tvec.
     bindR (rd neighbors ispin) (\<lambda>nb_pairs.
     bindR (QuantumMetropolisAccept ops svec tvec ispin islice nb_pairs perpJ T g)
       (\<lambda>(accept, g').
          if accept
          then bindR (rd2 configurations ispin islice) (\<lambda>x.
               bindR (wr2 configurations ispin islice (x * (- 1))) (\<lambda>conf'. Inr (conf', g')))
          else Inr (configurations, g'))))))"

text \<open>Lines 126-136: the spins of one slice, in a fresh random order.\<close>

definition Quantum_slice ::
  "'g rng \<Rightarrow> nbs \<Rightarrow> int \<Rightarrow> real \<Rightarrow> real \<Rightarrow> nat \<Rightarrow> real list list \<times> 'g
     \<Rightarrow> (real list list \<times> 'g) result" where
  "Quantum_slice ops neighbors nSpins perpJ T islice st = (case st of (configurations, g) \<Rightarrow>
     case rng_permutation ops [0..<nat nSpins] g of (spins, g') \<Rightarrow>
       foldR (Quantum_spin ops neighbors perpJ T islice) spins (configurations, g'))"

text \<open>Lines 124-136: one Monte Carlo step, the slices in a fresh random order.\<close>

definition Quantum_step ::
  "'g rng \<Rightarrow> nbs \<Rightarrow> int \<Rightarrow> int \<Rightarrow> real \<Rightarrow> real \<Rightarrow> nat \<Rightarrow> real list list \<times> 'g
     \<Rightarrow> (real list list \<times> 'g) result" where
  "Quantum_step ops neighbors trotterSlices nSpins perpJ T step st =
     (case st of (configurations, g) \<Rightarrow>
      case rng_permutation ops [0..<nat trotterSlices] g of (slices, g') \<Rightarrow>
        foldR (Quantum_slice ops neighbors nSpins perpJ T) slices (configurations, g'))"

text \<open>Lines 119-121: the coupling along the Trotter dimension.\<close>

definition perpJ_of :: "int \<Rightarrow> real \<Rightarrow> real \<Rightarrow> real" where
  "perpJ_of trotterSlices annealingTemperature field =
     - 0.5 * real_of_int trotterSlices * annealingTemperature *
       ln (tanh (field / (real_of_int trotterSlices * annealingTemperature)))"

text \<open>Lines 117-136: one value of the field schedule.\<close>

definition Quantum_field ::
  "'g rng \<Rightarrow> nbs \<Rightarrow> int \<Rightarrow> int \<Rightarrow> real \<Rightarrow> int \<Rightarrow> real \<Rightarrow> real list list \<times> 'g
     \<Rightarrow> (real list list \<times> 'g) result" where
  "Quantum_field ops neighbors mcSteps trotterSlices annealingTemperature nSpins field st =
     foldR (Quantum_step ops neighbors trotterSlices nSpins
              (perpJ_of trotterSlices annealingTemperature field) annealingTemperature)
       [0..<nat mcSteps] st"

definition QuantumAnneal ::
  "'g rng \<Rightarrow> real list \<Rightarrow> int \<Rightarrow> int \<Rightarrow> real \<Rightarrow> int \<Rightarrow> real list list \<Rightarrow> nbs \<Rightarrow> 'g
     \<Rightarrow> real list list result" where
  "QuantumAnneal ops annealingSchedule mcSteps trotterSlices annealingTemperature nSpins
       configurations neighbors g =
     bindR (foldR (Quantum_field ops neighbors mcSteps trotterSlices annealingTemperature nSpins)
              annealingSchedule (configurations, g))
       (\<lambda>(conf', _). Inr conf')"

section \<open>Notions used to state the properties\<close>

text \<open>
  Row \<open>k\<close> of the replica matrix is bit \<open>63 - k\<close> of every packed word (the entry packing
  shifts row 0 furthest to the left, and the exit unpacking reads the binary numeral from the
  left). A cleared bit is the spin \<open>+1\<close>, a set bit the spin \<open>-1\<close>.
\<close>

definition replica_spin :: "64 word \<Rightarrow> nat \<Rightarrow> real" where
  "replica_spin w k = (if bit w (63 - k) then - 1 else 1)"

definition replica :: "nat \<Rightarrow> 64 word list \<Rightarrow> real list" where
  "replica k svec = map (\<lambda>w. replica_spin w k) svec"

text \<open>
  The contribution of one neighbour pair to the energy difference of spin \<open>sidx\<close>:
  linear for a self-pair, quadratic otherwise.
\<close>

definition contribution :: "real list \<Rightarrow> nat \<Rightarrow> int \<times> real \<Rightarrow> real" where
  "contribution svec sidx p = (case p of (spinidx, jval) \<Rightarrow>
     if spinidx = int sidx then - 2 * (svec ! sidx) * jval
     else - 2 * (svec ! sidx) * jval * (svec ! nat spinidx))"




subsection \<open>Concrete random sources\<close>

text \<open>A libc whose \<^verbatim>\<open>rand\<close> returns the constant \<open>r\<close>, with glibc's \<^verbatim>\<open>RAND_MAX\<close>.\<close>

definition const_libc :: "nat \<Rightarrow> unit libc" where
  "const_libc r = \<lparr>crand = (\<lambda>c. (r, c)), RAND_MAX = 2147483647\<rparr>"

text \<open>
  A generator that counts its calls: permutations reverse the list, \<^verbatim>\<open>rand(n)\<close> returns
  \<open>n\<close> times the draw \<open>u\<close>, and \<^verbatim>\<open>uniform(0,1)\<close> returns \<open>u\<close>.
\<close>

definition counting_rng :: "real \<Rightarrow> nat rng" where
  "counting_rng u = \<lparr>rng_permutation = (\<lambda>xs g. (rev xs, Suc g)),
                      rng_rand = (\<lambda>n g. (replicate n u, Suc g)),
                      rng_uniform = (\<lambda>g. (u, Suc g))\<rparr>"

text \<open>Shifting the truth values \<open>bs\<close> into a word from the right, first value first.\<close>

definition shift_in :: "bool list \<Rightarrow> 64 word \<Rightarrow> 64 word" where
  "shift_in bs w = fold (\<lambda>b v. if b then push_bit 1 v XOR 1 else push_bit 1 v) bs w"

text \<open>A replica matrix: 64 rows (replicas) of \<open>n\<close> entries (spins).\<close>

definition matrix64 :: "nat \<Rightarrow> real list list \<Rightarrow> bool" where
  "matrix64 n m \<longleftrightarrow> length m = 64 \<and> (\<forall>row \<in> set m. length row = n)"

text \<open>The entry the unpacking writes for row \<open>k\<close> of a word.\<close>

definition bit_value :: "64 word \<Rightarrow> nat \<Rightarrow> real" where
  "bit_value w k = (if bit w (63 - k) then 1 else 0)"

text \<open>What packing followed by unpacking makes of a matrix entry.\<close>

definition truth_value :: "real \<Rightarrow> real" where
  "truth_value x = (if x \<noteq> 0 then 1 else 0)"

text \<open>Every spin of a configuration is exactly \<open>+1\<close> or \<open>-1\<close>.\<close>

definition spins_ok :: "real list \<Rightarrow> bool" where
  "spins_ok svec \<longleftrightarrow> (\<forall>x \<in> set svec. x = 1 \<or> x = - 1)"

definition conf_ok :: "real list list \<Rightarrow> bool" where
  "conf_ok configurations \<longleftrightarrow> (\<forall>row \<in> set configurations. spins_ok row)"

section \<open>Basic facts\<close>

lemma bindR_Inr [simp]: "bindR (Inr x) f = f x"
  by (simp add: bindR_def)

lemma bindR_Inl [simp]: "bindR (Inl e) f = Inl e"
  by (simp add: bindR_def)

lemma bindR_eq_Inr: "bindR m f = Inr y \<longleftrightarrow> (\<exists>x. m = Inr x \<and> f x = Inr y)"
  by (cases m) simp_all

lemma rd_in [simp]: "i < length xs \<Longrightarrow> rd xs i = Inr (xs ! i)"
  by (simp add: rd_def)

lemma rd_out [simp]: "length xs \<le> i \<Longrightarrow> rd xs i = Inl OutOfBounds"
  by (simp add: rd_def)

lemma wr_in [simp]: "i < length xs \<Longrightarrow> wr xs i v = Inr (xs[i := v])"
  by (simp add: wr_def)

lemma wr_out [simp]: "length xs \<le> i \<Longrightarrow> wr xs i v = Inl OutOfBounds"
  by (simp add: wr_def)

lemma foldR_append:
  "foldR f (xs @ ys) s = (case foldR f xs s of Inl e \<Rightarrow> Inl e | Inr s' \<Rightarrow> foldR f ys s')"
  by (induction xs arbitrary: s) (auto split: sum.splits)

lemma foldR_snoc:
  "foldR f (xs @ [x]) s = (case foldR f xs s of Inl e \<Rightarrow> Inl e | Inr s' \<Rightarrow> f x s')"
  by (simp add: foldR_append split: sum.splits)

text \<open>Every fault of a loop of out-of-bounds faults is an out-of-bounds fault.\<close>

lemma foldR_fault:
  assumes "\<And>x s e. f x s = Inl e \<Longrightarrow> e = OutOfBounds"
  shows "foldR f xs s = Inl e \<Longrightarrow> e = OutOfBounds"
  using assms by (induction xs arbitrary: s) (auto split: sum.splits)

lemma rd_fault: "rd xs i = Inl e \<Longrightarrow> e = OutOfBounds"
  by (auto simp: rd_def split: if_splits)

lemma wr2_fault: "wr2 m k i v = Inl e \<Longrightarrow> e = OutOfBounds"
  by (simp add: wr2_def bindR_def rd_def wr_def split: if_splits sum.splits)

lemma unpack_cell_fault: "unpack_cell st sidx k m = Inl e \<Longrightarrow> e = OutOfBounds"
  by (simp add: unpack_cell_def bindR_def rd_def wr2_fault split: if_splits sum.splits)

lemma unpack_col_fault:
  assumes "unpack_col svec sidx m = Inl e"
  shows "e = OutOfBounds"
proof (cases "sidx < length svec")
  case True
  with assms have "foldR (unpack_cell (bin64 (svec ! sidx)) sidx) [0..<length (bin64 (svec ! sidx))] m = Inl e"
    by (simp add: unpack_col_def)
  then show ?thesis
    by (rule foldR_fault [rotated]) (rule unpack_cell_fault)
next
  case False
  with assms show ?thesis
    by (simp add: unpack_col_def)
qed

lemma unpack_faults: "unpack svec svec_mat = Inl OutOfBounds"
proof (cases "foldR (unpack_col svec) [0..<length svec] svec_mat")
  case (Inl e)
  then have "e = OutOfBounds"
    by (rule foldR_fault [rotated]) (rule unpack_col_fault)
  with Inl show ?thesis
    by (simp add: unpack_def unpack_indices_def foldR_snoc)
next
  case (Inr m)
  have "unpack_col svec (length svec) m = Inl OutOfBounds"
    by (simp add: unpack_col_def)
  with Inr show ?thesis
    by (simp add: unpack_def unpack_indices_def foldR_snoc)
qed

section \<open>The energy difference of one spin\<close>

lemma getbit_bit: "getbit s k = bit s k"
  by (simp add: getbit_def and_one_eq bit_iff_odd_drop_bit odd_iff_mod_2_eq_one)


lemma rdi_in: "0 \<le> i \<Longrightarrow> i < int (length xs) \<Longrightarrow> rdi xs i = Inr (xs ! nat i)"
  by (simp add: rdi_def)


lemma fold_pointwise:
  "n \<le> length e \<Longrightarrow>
   fold (\<lambda>k e. e[k := h k (e ! k)]) [0..<n] e = map (\<lambda>k. h k (e ! k)) [0..<n] @ drop n e"
proof (induction n)
  case 0
  then show ?case by simp
next
  case (Suc n)
  then have n: "n < length e" by simp
  have "(map (\<lambda>k. h k (e ! k)) [0..<n] @ drop n e)[n := h n (e ! n)] =
        map (\<lambda>k. h k (e ! k)) [0..<n] @ (drop n e)[0 := h n (e ! n)]"
    by (simp add: list_update_append)
  also have "(drop n e)[0 := h n (e ! n)] = h n (e ! n) # drop (Suc n) e"
    using n by (simp add: Cons_nth_drop_Suc [symmetric])
  finally show ?case
    using Suc n by (simp add: nth_append)
qed

lemma bits_loop_eq:
  assumes "length ediffs = 64"
  shows "bits_loop w jval ediffs =
         map (\<lambda>k. ediffs ! k + - 2 * replica_spin w k * jval) [0..<64]"
proof -
  have "bits_loop w jval ediffs =
        fold (\<lambda>k e. e[k := (\<lambda>k x. x + - 2 * replica_spin w k * jval) k (e ! k)]) [0..<64] ediffs"
    unfolding bits_loop_def
    by (rule arg_cong [where f = "\<lambda>f. fold f [0..<64] ediffs"])
       (auto simp: fun_eq_iff getbit_bit replica_spin_def)
  also have "\<dots> = map (\<lambda>k. ediffs ! k + - 2 * replica_spin w k * jval) [0..<64] @ drop 64 ediffs"
    using assms by (subst fold_pointwise) simp_all
  finally show ?thesis using assms by simp
qed

lemma replica_spin_xor: "replica_spin (w XOR v) k = replica_spin w k * replica_spin v k"
  by (simp add: replica_spin_def bit_xor_iff)



lemma multispin_nb_step:
  assumes "sidx < length svec" and "sidx < length nbs" and "si < length (nbs ! sidx)"
    and "0 \<le> fst (nbs ! sidx ! si)" and "fst (nbs ! sidx ! si) < int (length svec)"
    and "length ed = 64"
  shows "multispin_nb svec nbs sidx si ed =
         Inr (map (\<lambda>k. ed ! k + contribution (replica k svec) sidx (nbs ! sidx ! si)) [0..<64])"
proof -
  obtain j c where p: "nbs ! sidx ! si = (j, c)" by (cases "nbs ! sidx ! si")
  with assms have j: "0 \<le> j" "j < int (length svec)" "nat j < length svec" by auto
  show ?thesis
  proof (cases "j = int sidx")
    case True
    then show ?thesis
      using assms(1-3,6) 
      by (simp add: multispin_nb_def rd2_def p bits_loop_eq contribution_def replica_def)
  next
    case False
    then show ?thesis
      using assms(1-3,6) j
      by (simp add: multispin_nb_def rd2_def p bits_loop_eq contribution_def replica_def
          rdi_in replica_spin_xor)
  qed
qed

lemma multispin_nb_prefix:
  assumes "sidx < length svec" and "sidx < length nbs"
    and "\<forall>p \<in> set (nbs ! sidx). 0 \<le> fst p \<and> fst p < int (length svec)"
    and "length ed = 64"
  shows "n \<le> length (nbs ! sidx) \<Longrightarrow>
         foldR (multispin_nb svec nbs sidx) [0..<n] ed =
         Inr (map (\<lambda>k. ed ! k + (\<Sum>p\<leftarrow>take n (nbs ! sidx). contribution (replica k svec) sidx p))
                [0..<64])"
proof (induction n)
  case 0
  have "map ((!) ed) [0..<length ed] = ed" by (rule map_nth)
  then show ?case using assms(4) by simp
next
  case (Suc n)
  let ?ed = "map (\<lambda>k. ed ! k + (\<Sum>p\<leftarrow>take n (nbs ! sidx). contribution (replica k svec) sidx p)) [0..<64]"
  from Suc have n: "n < length (nbs ! sidx)" by simp
  then have "nbs ! sidx ! n \<in> set (nbs ! sidx)" by simp
  with assms(3) have r: "0 \<le> fst (nbs ! sidx ! n)" "fst (nbs ! sidx ! n) < int (length svec)"
    by auto
  have "multispin_nb svec nbs sidx n ?ed =
        Inr (map (\<lambda>k. ?ed ! k + contribution (replica k svec) sidx (nbs ! sidx ! n)) [0..<64])"
    using assms(1,2) n r by (intro multispin_nb_step) simp_all
  also have "map (\<lambda>k. ?ed ! k + contribution (replica k svec) sidx (nbs ! sidx ! n)) [0..<64] =
        map (\<lambda>k. ed ! k + (\<Sum>p\<leftarrow>take (Suc n) (nbs ! sidx). contribution (replica k svec) sidx p)) [0..<64]"
    using n by (intro map_cong refl) (simp add: take_Suc_conv_app_nth)
  finally show ?case
    using Suc n by (simp add: foldR_snoc)
qed



section \<open>The bounds of the unpacking loop\<close>

text \<open>
  C6. The unpacking loop at the end of \<^verbatim>\<open>Anneal_multispin\<close> should stay within the
  indices \<open>0 .. nspins - 1\<close> of the packed words and of the columns of the matrix. The loop
  of the code visits the index \<open>nspins\<close> as well, where the read of the packed word is
  out of bounds, so the unpacking always ends in that fault.
\<close>

theorem unpack_visits_one_index_too_many:
  "unpack_indices svec = [0..<length svec] @ [length svec] \<and>
   rd svec (length svec) = Inl OutOfBounds \<and>
   unpack svec svec_mat = Inl OutOfBounds"
  by (simp add: unpack_indices_def unpack_faults)

section \<open>The Trotter ring\<close>






section \<open>The Metropolis decision at a zero energy difference\<close>

text \<open>
  A single spin whose only neighbour pair is a self-pair of coupling 0 has the energy
  difference 0 in both classical kernels.
\<close>

lemma isolated_ediff:
  "Anneal_ediff [1] [[(0, 0)]] 0 = Inr 0" "Anneal_parallel_ediff [1] [[(0, 0)]] 0 = Inr 0"
  by (simp_all add: Anneal_ediff_def Anneal_parallel_ediff_def maxnb_def Anneal_nb_def
      Anneal_parallel_nb_def rd2_def)

text \<open>
  C2. Every annealer should accept a flip with \<open>ediff \<ge> 0\<close> unconditionally, without
  a draw. The sequential kernel does (line 92 tests \<open>ediff \<ge> 0\<close>); the parallel kernel
  tests \<open>ediff > 0\<close> (line 162), so at \<open>ediff = 0\<close> the draw decides: when \<^verbatim>\<open>rand\<close>
  returns \<^verbatim>\<open>RAND_MAX\<close>, the comparison is \<open>1 > 1\<close> and the spin is not flipped.
\<close>

theorem parallel_rejects_at_zero_ediff:
  "Anneal_parallel_ediff [1] [[(0, 0)]] 0 = Inr 0 \<and>
   Anneal_parallel_visit (const_libc 2147483647) [[(0, 0)]] 1 0 ([1], ()) = Inr ([1], ())"
  by (simp add: isolated_ediff Anneal_parallel_visit_def const_libc_def exp_div_gt_def)

text \<open>
  C4. The visit of a spin by the parallel annealer should be the visit by the sequential
  annealer: same energy difference, same decision for the same draw. At the input of C2 the
  energy differences agree, the sequential visit flips the spin and the parallel visit does
  not; so do the two annealers run on that single spin for one sweep.
\<close>

theorem parallel_differs_from_sequential:
  "Anneal_ediff [1] [[(0, 0)]] 0 = Anneal_parallel_ediff [1] [[(0, 0)]] 0 \<and>
   Anneal_visit (const_libc 2147483647) [[(0, 0)]] 1 0 ([1], ()) = Inr ([- 1], ()) \<and>
   Anneal_parallel_visit (const_libc 2147483647) [[(0, 0)]] 1 0 ([1], ()) = Inr ([1], ()) \<and>
   Anneal (counting_rng 0) (const_libc 2147483647) [1] 1 [1] [[(0, 0)]] 0 () = Inr [- 1] \<and>
   Anneal_parallel (const_libc 2147483647) [1] 1 [1] [[(0, 0)]] 1 () = Inr [1]"
  by (simp add: isolated_ediff Anneal_parallel_visit_def Anneal_visit_def const_libc_def
      exp_div_gt_def flip_def Anneal_def Anneal_temp_def Anneal_sweep_def counting_rng_def
      Anneal_parallel_def Anneal_parallel_temp_def Anneal_parallel_sweep_def)

section \<open>Packing and unpacking the replica matrix\<close>

text \<open>The binary numeral of a word, padded to 64 characters, lists its bits from bit 63 down.\<close>

lemma rjust_snoc: "rjust (Suc m) c (xs @ [x]) = rjust m c xs @ [x]"
  by (simp add: rjust_def)

lemma bin_digit_odd: "bin_digit (n mod 2) = (if odd n then CHR ''1'' else CHR ''0'')"
  by (simp add: bin_digit_def odd_iff_mod_2_eq_one)

lemma map_const_replicate:
  "(\<And>x. x \<in> set xs \<Longrightarrow> f x = c) \<Longrightarrow> map f xs = replicate (length xs) c"
  by (induction xs) simp_all

lemma rjust_bin_digits:
  "n < 2 ^ Suc m \<Longrightarrow>
   rjust (Suc m) CHR ''0'' (bin_digits n) =
   map (\<lambda>k. if odd (n div 2 ^ (m - k)) then CHR ''1'' else CHR ''0'') [0..<Suc m]"
proof (induction m arbitrary: n)
  case 0
  then have "n = 0 \<or> n = 1" by auto
  then show ?case
    by (auto simp add: rjust_def bin_digit_def)
next
  case (Suc m)
  show ?case
  proof (cases "n < 2")
    case True
    then have n: "n = 0 \<or> n = 1" by auto
    have zero: "(if odd (n div 2 ^ (Suc m - k)) then CHR ''1'' else CHR ''0'') = CHR ''0''"
      if "k \<in> set [0..<Suc m]" for k
    proof -
      from that have "(2 :: nat) ^ 1 \<le> 2 ^ (Suc m - k)"
        by (intro power_increasing) auto
      with True have "n div 2 ^ (Suc m - k) = 0" by simp
      then show ?thesis by simp
    qed
    have "map (\<lambda>k. if odd (n div 2 ^ (Suc m - k)) then CHR ''1'' else CHR ''0'') [0..<Suc m] =
          replicate (length [0..<Suc m]) CHR ''0''"
      by (rule map_const_replicate) (rule zero)
    then have "map (\<lambda>k. if odd (n div 2 ^ (Suc m - k)) then CHR ''1'' else CHR ''0'')
          ([0..<Suc m] @ [Suc m]) = replicate (Suc m) CHR ''0'' @ [bin_digit n]"
      using n by (auto simp add: bin_digit_def simp del: upt_Suc replicate_Suc)
    moreover have "[0..<Suc (Suc m)] = [0..<Suc m] @ [Suc m]" by simp
    moreover have "rjust (Suc (Suc m)) CHR ''0'' (bin_digits n) = replicate (Suc m) CHR ''0'' @ [bin_digit n]"
      using True by (simp add: rjust_def del: replicate_Suc)
    ultimately show ?thesis by (simp only:)
  next
    case False
    from Suc.prems have half: "n div 2 < 2 ^ Suc m" by simp
    have "rjust (Suc (Suc m)) CHR ''0'' (bin_digits n) =
          rjust (Suc m) CHR ''0'' (bin_digits (n div 2)) @ [bin_digit (n mod 2)]"
      using False by (subst bin_digits.simps) (simp add: rjust_snoc)
    also have "rjust (Suc m) CHR ''0'' (bin_digits (n div 2)) =
          map (\<lambda>k. if odd (n div 2 div 2 ^ (m - k)) then CHR ''1'' else CHR ''0'') [0..<Suc m]"
      using half by (rule Suc.IH)
    also have "\<dots> = map (\<lambda>k. if odd (n div 2 ^ (Suc m - k)) then CHR ''1'' else CHR ''0'') [0..<Suc m]"
    proof (intro map_cong refl)
      fix k assume "k \<in> set [0..<Suc m]"
      then have "Suc m - k = Suc (m - k)" by auto
      then have "n div 2 ^ (Suc m - k) = n div 2 div 2 ^ (m - k)"
        by (simp add: div_mult2_eq)
      then show "(if odd (n div 2 div 2 ^ (m - k)) then CHR ''1'' else CHR ''0'') =
                 (if odd (n div 2 ^ (Suc m - k)) then CHR ''1'' else CHR ''0'')"
        by simp
    qed
    finally show ?thesis
      by (simp add: bin_digit_odd del: upt_Suc) (simp add: bin_digit_odd)
  qed
qed

lemma bin64_eq:
  "bin64 w = map (\<lambda>k. if bit w (63 - k) then CHR ''1'' else CHR ''0'') [0..<64]"
proof -
  have "unat w < 2 ^ Suc 63"
    using unsigned_less [of w] by simp
  then have "rjust (Suc 63) CHR ''0'' (bin_digits (unat w)) =
      map (\<lambda>k. if odd (unat w div 2 ^ (63 - k)) then CHR ''1'' else CHR ''0'') [0..<Suc 63]"
    by (rule rjust_bin_digits)
  moreover have "odd (unat w div 2 ^ n) \<longleftrightarrow> bit w n" for n
    by (simp add: bit_iff_odd [symmetric] bit_unsigned_iff)
  ultimately show ?thesis
    by (simp add: bin64_def del: upt_Suc)
qed

lemma shift_in_Nil [simp]: "shift_in [] w = w"
  by (simp add: shift_in_def)

lemma shift_in_snoc:
  "shift_in (bs @ [b]) w = (if b then push_bit 1 (shift_in bs w) XOR 1 else push_bit 1 (shift_in bs w))"
  by (simp add: shift_in_def)

lemma bit_push_bit_1:
  "bit (push_bit 1 v :: 64 word) i \<longleftrightarrow> 0 < i \<and> i < 64 \<and> bit v (i - 1)"
  unfolding bit_push_bit_iff by (auto simp add: possible_bit_word)

lemma bit_shift_step:
  "bit (if b then push_bit 1 v XOR 1 else push_bit 1 v :: 64 word) i \<longleftrightarrow>
     i < 64 \<and> (if i = 0 then b else bit v (i - 1))"
proof -
  have "bit (push_bit 1 v XOR 1 :: 64 word) i \<longleftrightarrow> i < 64 \<and> (if i = 0 then True else bit v (i - 1))"
    unfolding bit_xor_iff bit_push_bit_1 bit_1_iff by auto
  moreover have "bit (push_bit 1 v :: 64 word) i \<longleftrightarrow> i < 64 \<and> (if i = 0 then False else bit v (i - 1))"
    unfolding bit_push_bit_1 by auto
  ultimately show ?thesis by (cases b) (simp_all only: if_True if_False)
qed

lemma bit_shift_in:
  "bit (shift_in bs w) i \<longleftrightarrow>
     i < 64 \<and> (if i < length bs then rev bs ! i else bit w (i - length bs))"
proof (induction bs arbitrary: i rule: rev_induct)
  case Nil
  then show ?case by (auto dest: bit_imp_le_length)
next
  case (snoc b bs)
  show ?case
  proof (cases "i = 0")
    case True
    then show ?thesis by (simp add: shift_in_snoc bit_shift_step del: if_split)
  next
    case False
    then obtain j where j: "i = Suc j" by (cases i) auto
    then show ?thesis
      by (auto simp add: shift_in_snoc bit_shift_step snoc.IH simp del: if_split)
  qed
qed

lemma matrix64_row: "matrix64 n m \<Longrightarrow> k < 64 \<Longrightarrow> length (m ! k) = n"
  by (simp add: matrix64_def)

lemma matrix64_ncols: "matrix64 n m \<Longrightarrow> ncols m = n"
  by (cases m) (auto simp: matrix64_def ncols_def)

lemma pack_bit_eq:
  assumes "si < length svec" and "k < length m" and "si < length (m ! k)"
  shows "pack_bit m si k svec =
         Inr (svec[si := (if m ! k ! si \<noteq> 0 then push_bit 1 (svec ! si) XOR 1
                          else push_bit 1 (svec ! si))])"
  using assms by (simp add: pack_bit_def rd2_def)

lemma pack_col_prefix:
  assumes "si < length svec" and "\<forall>k < length m. si < length (m ! k)"
  shows "j \<le> length m \<Longrightarrow>
         foldR (pack_bit m si) [0..<j] svec =
         Inr (svec[si := shift_in (map (\<lambda>k. m ! k ! si \<noteq> 0) [0..<j]) (svec ! si)])"
proof (induction j)
  case 0
  then show ?case by simp
next
  case (Suc j)
  let ?s = "svec[si := shift_in (map (\<lambda>k. m ! k ! si \<noteq> 0) [0..<j]) (svec ! si)]"
  from Suc have j: "j < length m" by simp
  with assms(2) have "si < length (m ! j)" by simp
  then have "pack_bit m si j ?s =
         Inr (?s[si := (if m ! j ! si \<noteq> 0 then push_bit 1 (?s ! si) XOR 1
                          else push_bit 1 (?s ! si))])"
    using assms(1) j by (intro pack_bit_eq) simp_all
  then show ?case
    using Suc j assms(1) by (simp add: foldR_snoc shift_in_snoc)
qed

lemma pack_col_eq:
  assumes "si < length svec" and "\<forall>k < length m. si < length (m ! k)"
  shows "pack_col m si svec =
         Inr (svec[si := shift_in (map (\<lambda>k. m ! k ! si \<noteq> 0) [0..<length m]) (svec ! si)])"
  unfolding pack_col_def using assms by (intro pack_col_prefix) simp_all

lemma pack_prefix:
  assumes "matrix64 n m" and "length svec = n"
  shows "j \<le> n \<Longrightarrow>
         \<exists>svec'. foldR (pack_col m) [0..<j] svec = Inr svec' \<and> length svec' = n \<and>
           (\<forall>i<n. svec' ! i = (if i < j then shift_in (map (\<lambda>k. m ! k ! i \<noteq> 0) [0..<64]) (svec ! i)
                               else svec ! i))"
proof (induction j)
  case 0
  then show ?case using assms(2) by simp
next
  case (Suc j)
  then obtain s1 where s1: "foldR (pack_col m) [0..<j] svec = Inr s1" "length s1 = n"
      "\<forall>i<n. s1 ! i = (if i < j then shift_in (map (\<lambda>k. m ! k ! i \<noteq> 0) [0..<64]) (svec ! i)
                               else svec ! i)"
    by auto
  from Suc have j: "j < n" by simp
  have len: "length m = 64" using assms(1) by (simp add: matrix64_def)
  have "\<forall>k < length m. j < length (m ! k)"
    using assms(1) j by (simp add: matrix64_def)
  then have "pack_col m j s1 =
      Inr (s1[j := shift_in (map (\<lambda>k. m ! k ! j \<noteq> 0) [0..<length m]) (s1 ! j)])"
    using j s1(2) by (intro pack_col_eq) simp_all
  then have step: "foldR (pack_col m) [0..<Suc j] svec =
      Inr (s1[j := shift_in (map (\<lambda>k. m ! k ! j \<noteq> 0) [0..<64]) (svec ! j)])"
    using s1(1,3) j len by (simp add: foldR_snoc)
  show ?case
    unfolding step using s1(2,3) j
    by (auto simp add: nth_list_update less_Suc_eq)
qed

lemma pack_bits:
  assumes "matrix64 n m"
  shows "\<exists>svec. pack m = Inr svec \<and> length svec = n \<and>
           (\<forall>i<n. \<forall>k<64. bit (svec ! i) (63 - k) \<longleftrightarrow> m ! k ! i \<noteq> 0)"
proof -
  obtain svec where svec: "foldR (pack_col m) [0..<n] (replicate n 0) = Inr svec" "length svec = n"
    "\<forall>i<n. svec ! i = shift_in (map (\<lambda>k. m ! k ! i \<noteq> 0) [0..<64]) 0"
    using pack_prefix [OF assms, of "replicate n 0" n] by auto
  have "bit (svec ! i) (63 - k) \<longleftrightarrow> m ! k ! i \<noteq> 0" if "i < n" "k < 64" for i k
  proof -
    have "63 - k < 64" "64 - Suc (63 - k) = k" using that(2) by simp_all
    then show ?thesis
      using that svec(3) by (simp add: bit_shift_in rev_nth)
  qed
  then show ?thesis
    using svec(1,2) by (auto simp add: pack_def matrix64_ncols [OF assms])
qed

lemma matrix64_nth: "matrix64 n m \<longleftrightarrow> length m = 64 \<and> (\<forall>k<64. length (m ! k) = n)"
  by (auto simp add: matrix64_def all_set_conv_all_nth)

lemma length_bin64 [simp]: "length (bin64 w) = 64"
  by (simp add: bin64_eq)

lemma digit_bin64: "k < 64 \<Longrightarrow> float_of_digit (bin64 w ! k) = bit_value w k"
  by (simp add: bin64_eq float_of_digit_def bit_value_def del: upt_Suc)

lemma wr2_in:
  "k < length m \<Longrightarrow> i < length (m ! k) \<Longrightarrow> wr2 m k i v = Inr (m[k := (m ! k)[i := v]])"
  by (simp add: wr2_def)

lemma unpack_cell_eq:
  assumes "k < 64" and "k < length m" and "sidx < length (m ! k)"
  shows "unpack_cell (bin64 w) sidx k m = Inr (m[k := (m ! k)[sidx := bit_value w k]])"
  using assms by (simp add: unpack_cell_def wr2_in digit_bin64)

lemma unpack_cells_prefix:
  assumes "matrix64 n m" and "sidx < n"
  shows "j \<le> 64 \<Longrightarrow>
         \<exists>m'. foldR (unpack_cell (bin64 w) sidx) [0..<j] m = Inr m' \<and> matrix64 n m' \<and>
           (\<forall>k<64. m' ! k = (if k < j then (m ! k)[sidx := bit_value w k] else m ! k))"
proof (induction j)
  case 0
  then show ?case using assms(1) by simp
next
  case (Suc j)
  then obtain m1 where m1: "foldR (unpack_cell (bin64 w) sidx) [0..<j] m = Inr m1" "matrix64 n m1"
      "\<forall>k<64. m1 ! k = (if k < j then (m ! k)[sidx := bit_value w k] else m ! k)"
    by auto
  from Suc have j: "j < 64" by simp
  have l1: "length m1 = 64" "length (m1 ! j) = n"
    using m1(2) j by (simp_all add: matrix64_nth)
  have "unpack_cell (bin64 w) sidx j m1 = Inr (m1[j := (m1 ! j)[sidx := bit_value w j]])"
    using j l1 assms(2) by (intro unpack_cell_eq) simp_all
  then have step: "foldR (unpack_cell (bin64 w) sidx) [0..<Suc j] m =
      Inr (m1[j := (m ! j)[sidx := bit_value w j]])"
    using m1(1,3) j by (simp add: foldR_snoc)
  have "matrix64 n (m1[j := (m ! j)[sidx := bit_value w j]])"
    using m1(2) assms(1) j by (simp add: matrix64_nth nth_list_update)
  then show ?case
    unfolding step using m1(3) l1 j
    by (auto simp add: nth_list_update less_Suc_eq)
qed

lemma unpack_col_eq:
  assumes "matrix64 n m" and "sidx < n" and "sidx < length svec"
  shows "\<exists>m'. unpack_col svec sidx m = Inr m' \<and> matrix64 n m' \<and>
           (\<forall>k<64. m' ! k = (m ! k)[sidx := bit_value (svec ! sidx) k])"
  using unpack_cells_prefix [OF assms(1,2), of 64 "svec ! sidx"] assms(3)
  by (simp add: unpack_col_def)

lemma unpack_cols_prefix:
  assumes "matrix64 n m" and "length svec = n"
  shows "j \<le> n \<Longrightarrow>
         \<exists>m'. foldR (unpack_col svec) [0..<j] m = Inr m' \<and> matrix64 n m' \<and>
           (\<forall>k<64. \<forall>i<n. m' ! k ! i = (if i < j then bit_value (svec ! i) k else m ! k ! i))"
proof (induction j)
  case 0
  then show ?case using assms(1) by simp
next
  case (Suc j)
  then obtain m1 where m1: "foldR (unpack_col svec) [0..<j] m = Inr m1" "matrix64 n m1"
      "\<forall>k<64. \<forall>i<n. m1 ! k ! i = (if i < j then bit_value (svec ! i) k else m ! k ! i)"
    by auto
  from Suc have j: "j < n" by simp
  obtain m2 where m2: "unpack_col svec j m1 = Inr m2" "matrix64 n m2"
      "\<forall>k<64. m2 ! k = (m1 ! k)[j := bit_value (svec ! j) k]"
    using unpack_col_eq [OF m1(2) j, of svec] j assms(2) by auto
  have step: "foldR (unpack_col svec) [0..<Suc j] m = Inr m2"
    using m1(1) m2(1) by (simp add: foldR_snoc)
  have "m2 ! k ! i = (if i < Suc j then bit_value (svec ! i) k else m ! k ! i)"
    if "k < 64" "i < n" for k i
  proof -
    have "length (m1 ! k) = n" using m1(2) that(1) by (simp add: matrix64_nth)
    then show ?thesis
      using m2(3) m1(3) that j by (auto simp add: nth_list_update less_Suc_eq)
  qed
  with step m2(2) show ?case by blast
qed

text \<open>The iterations of the unpacking loop over the valid spin indices.\<close>

lemma unpack_valid:
  assumes "matrix64 n m" and "length svec = n"
  shows "foldR (unpack_col svec) (butlast (unpack_indices svec)) m =
         Inr (map (\<lambda>k. map (\<lambda>i. bit_value (svec ! i) k) [0..<n]) [0..<64])"
proof -
  obtain m' where m': "foldR (unpack_col svec) [0..<n] m = Inr m'" "matrix64 n m'"
      "\<forall>k<64. \<forall>i<n. m' ! k ! i = bit_value (svec ! i) k"
    using unpack_cols_prefix [OF assms, of n] by auto
  have "m' = map (\<lambda>k. map (\<lambda>i. bit_value (svec ! i) k) [0..<n]) [0..<64]"
  proof (rule nth_equalityI)
    show "length m' = length (map (\<lambda>k. map (\<lambda>i. bit_value (svec ! i) k) [0..<n]) [0..<64])"
      using m'(2) by (simp add: matrix64_nth)
  next
    fix k assume "k < length m'"
    then have k: "k < 64" using m'(2) by (simp add: matrix64_nth)
    then have "length (m' ! k) = n" using m'(2) by (simp add: matrix64_nth)
    then have "m' ! k = map (\<lambda>i. bit_value (svec ! i) k) [0..<n]"
      using m'(3) k by (intro nth_equalityI) simp_all
    then show "m' ! k = map (\<lambda>k. map (\<lambda>i. bit_value (svec ! i) k) [0..<n]) [0..<64] ! k"
      using k by (simp del: upt_Suc)
  qed
  then show ?thesis
    using m'(1) assms(2) by (simp add: unpack_indices_def)
qed

lemma pack_unpack_valid:
  assumes "matrix64 n m"
  shows "\<exists>svec. pack m = Inr svec \<and> length svec = n \<and>
           (\<forall>i<n. \<forall>k<64. bit (svec ! i) (63 - k) \<longleftrightarrow> m ! k ! i \<noteq> 0) \<and>
           foldR (unpack_col svec) (butlast (unpack_indices svec)) m =
             Inr (map (map truth_value) m)"
proof -
  obtain svec where svec: "pack m = Inr svec" "length svec = n"
      "\<forall>i<n. \<forall>k<64. bit (svec ! i) (63 - k) \<longleftrightarrow> m ! k ! i \<noteq> 0"
    using pack_bits [OF assms] by blast
  have len: "length m = 64" "\<forall>k<64. length (m ! k) = n"
    using assms by (simp_all add: matrix64_nth)
  have "map (\<lambda>k. map (\<lambda>i. bit_value (svec ! i) k) [0..<n]) [0..<64] = map (map truth_value) m"
  proof (rule nth_equalityI)
    show "length (map (\<lambda>k. map (\<lambda>i. bit_value (svec ! i) k) [0..<n]) [0..<64]) =
          length (map (map truth_value) m)"
      using len by simp
  next
    fix k assume "k < length (map (\<lambda>k. map (\<lambda>i. bit_value (svec ! i) k) [0..<n]) [0..<64])"
    then have k: "k < 64" by simp
    have "map (\<lambda>i. bit_value (svec ! i) k) [0..<n] = map truth_value (m ! k)"
      using len k svec(3) by (intro nth_equalityI) (simp_all add: bit_value_def truth_value_def)
    then show "map (\<lambda>k. map (\<lambda>i. bit_value (svec ! i) k) [0..<n]) [0..<64] ! k =
               map (map truth_value) m ! k"
      using k len by (simp del: upt_Suc)
  qed
  then show ?thesis
    using svec unpack_valid [OF assms svec(2)] by auto
qed

lemma truth_value_fixed: "map (map truth_value) m = m \<longleftrightarrow> (\<forall>row \<in> set m. \<forall>x \<in> set row. x = 0 \<or> x = 1)"
proof -
  have "map truth_value row = row \<longleftrightarrow> (\<forall>x \<in> set row. x = 0 \<or> x = 1)" for row
    by (induction row) (auto simp add: truth_value_def)
  then show ?thesis
    by (induction m) auto
qed

lemma all_bits_set:
  assumes "\<forall>k<64. bit (w :: 64 word) (63 - k)"
  shows "w = - 1"
proof (rule bit_eqI)
  fix n
  assume "possible_bit TYPE(64 word) n"
  then have n: "n < 64" by (simp add: possible_bit_word)
  then have "63 - (63 - n) = n" "63 - n < 64" by simp_all
  with assms have "bit w n" by metis
  then show "bit w n \<longleftrightarrow> bit (- 1 :: 64 word) n"
    using n by simp
qed

lemma matrix64_minus_ones: "matrix64 1 (replicate 64 [- 1])"
  by (simp add: matrix64_def)

lemma pack_minus_ones:
  "pack (replicate 64 [- 1]) = Inr [- 1] \<and>
   foldR (unpack_col [- 1]) (butlast (unpack_indices [- 1])) (replicate 64 [- 1]) =
     Inr (replicate 64 [1])"
proof -
  obtain svec where svec: "pack (replicate 64 [- 1]) = Inr svec" "length svec = 1"
      "\<forall>i<1. \<forall>k<64. bit (svec ! i) (63 - k) \<longleftrightarrow> replicate 64 [- 1 :: real] ! k ! i \<noteq> 0"
      "foldR (unpack_col svec) (butlast (unpack_indices svec)) (replicate 64 [- 1]) =
         Inr (map (map truth_value) (replicate 64 [- 1]))"
    using pack_unpack_valid [OF matrix64_minus_ones] by blast
  from svec(3) have "\<forall>k<64. bit (svec ! 0) (63 - k)" by simp
  then have "svec ! 0 = - 1" by (rule all_bits_set)
  with svec(2) have "svec = [- 1]" by (cases svec) simp_all
  with svec(1,4) show ?thesis by (simp add: truth_value_def)
qed

lemma no_bits_set:
  assumes "\<forall>k<64. \<not> bit (w :: 64 word) (63 - k)"
  shows "w = 0"
proof (rule bit_eqI)
  fix n
  assume "possible_bit TYPE(64 word) n"
  then have n: "n < 64" by (simp add: possible_bit_word)
  then have "63 - (63 - n) = n" "63 - n < 64" by simp_all
  with assms have "\<not> bit w n" by metis
  then show "bit w n \<longleftrightarrow> bit (0 :: 64 word) n"
    by simp
qed

lemma matrix64_zeros: "matrix64 1 (replicate 64 [0])"
  by (simp add: matrix64_def)

lemma pack_zeros:
  "pack (replicate 64 [0]) = Inr [0] \<and>
   foldR (unpack_col [0]) (butlast (unpack_indices [0])) (replicate 64 [0]) =
     Inr (replicate 64 [0])"
proof -
  obtain svec where svec: "pack (replicate 64 [0]) = Inr svec" "length svec = 1"
      "\<forall>i<1. \<forall>k<64. bit (svec ! i) (63 - k) \<longleftrightarrow> replicate 64 [0 :: real] ! k ! i \<noteq> 0"
      "foldR (unpack_col svec) (butlast (unpack_indices svec)) (replicate 64 [0]) =
         Inr (map (map truth_value) (replicate 64 [0]))"
    using pack_unpack_valid [OF matrix64_zeros] by blast
  from svec(3) have "\<forall>k<64. \<not> bit (svec ! 0) (63 - k)" by simp
  then have "svec ! 0 = 0" by (rule no_bits_set)
  with svec(2) have "svec = [0]" by (cases svec) simp_all
  with svec(1,4) show ?thesis by (simp add: truth_value_def)
qed

text \<open>
  C10. The entry packing sets bit \<open>63 - k\<close> of word \<open>i\<close> exactly when the entry \<open>[k,i]\<close>
  is nonzero, and the exit unpacking writes only 0.0 and 1.0 (\<open>pack_unpack_valid\<close>); but
  packing followed by the unpacking loop of the code does not give back a matrix of 0/1
  entries. On the matrix of 64 replicas of one spin, every entry \<open>0.0\<close>: the packing gives
  the word 0; the unpacking loop visits the spin indices 0 and 1; the index 0 rewrites the
  matrix to itself; the index 1 is outside the array of words and outside the columns of the
  matrix. So the unpacking, and \<^verbatim>\<open>Anneal_multispin\<close> with an empty schedule, end in that
  fault instead of the input matrix.
\<close>

theorem pack_unpack_faults_on_zero_matrix:
  "pack (replicate 64 [0]) = Inr [0] \<and>
   unpack_indices [0] = [0, 1] \<and>
   unpack_col [0] 0 (replicate 64 [0]) = Inr (replicate 64 [0]) \<and>
   unpack_col [0] 1 (replicate 64 [0]) = Inl OutOfBounds \<and>
   unpack [0] (replicate 64 [0]) = Inl OutOfBounds \<and>
   Anneal_multispin (counting_rng 0) [] 1 (replicate 64 [0]) [[(0, 0)]] 0 = Inl OutOfBounds"
proof -
  have a: "unpack_indices [0] = [0, 1]"
    by (simp add: unpack_indices_def upt_rec)
  have b: "unpack_col [0] 0 (replicate 64 [0]) = Inr (replicate 64 [0])"
    using pack_zeros by (cases "unpack_col [0] 0 (replicate 64 [0])") (simp_all add: a)
  have c: "unpack_col [0] 1 (replicate 64 [0]) = Inl OutOfBounds"
    by (simp add: unpack_col_def)
  have "Anneal_multispin (counting_rng 0) [] 1 (replicate 64 [0]) [[(0, 0)]] 0 = Inl OutOfBounds"
    using pack_zeros
    by (simp add: Anneal_multispin_def counting_rng_def multispin_loop_def unpack_faults
        split: prod.splits)
  with a b c show ?thesis
    using pack_zeros by (simp add: unpack_faults)
qed

section \<open>Runs without a sweep\<close>

lemma foldR_id:
  assumes "\<And>x s. f x s = Inr s"
  shows "foldR f xs s = Inr s"
  by (induction xs) (simp_all add: assms)

lemma foldR_keeps:
  assumes "\<And>x g. x \<in> set xs \<Longrightarrow> \<exists>g'. f x (c, g) = Inr (c, g')"
  shows "\<exists>g'. foldR f xs (c, g) = Inr (c, g')"
  using assms
proof (induction xs arbitrary: g)
  case Nil
  then show ?case by simp
next
  case (Cons x xs)
  from Cons.prems obtain g1 where "f x (c, g) = Inr (c, g1)" by fastforce
  moreover from Cons obtain g2 where "foldR f xs (c, g1) = Inr (c, g2)" by fastforce
  ultimately show ?case by simp
qed

lemma Anneal_no_sweeps:
  assumes "mcsteps \<le> 0 \<or> sched = []"
  shows "Anneal ops lc sched mcsteps svec nbs g c = Inr svec"
proof -
  have "foldR (Anneal_temp ops lc nbs mcsteps) sched st = Inr st" for st
  proof (cases "sched = []")
    case True
    then show ?thesis by simp
  next
    case False
    with assms have "nat mcsteps = 0" by simp
    then show ?thesis by (intro foldR_id) (simp add: Anneal_temp_def)
  qed
  then show ?thesis
    by (simp add: Anneal_def split: prod.splits)
qed

lemma Anneal_parallel_no_sweeps:
  assumes "mcsteps \<le> 0 \<or> sched = []"
  shows "Anneal_parallel lc sched mcsteps svec nbs nthreads c = Inr svec"
proof -
  have "foldR (Anneal_parallel_temp lc nbs (length svec) mcsteps) sched st = Inr st" for st
  proof (cases "sched = []")
    case True
    then show ?thesis by simp
  next
    case False
    with assms have "nat mcsteps = 0" by simp
    then show ?thesis by (intro foldR_id) (simp add: Anneal_parallel_temp_def)
  qed
  then show ?thesis
    by (simp add: Anneal_parallel_def)
qed

lemma QuantumAnneal_no_sweeps:
  assumes "mcSteps \<le> 0 \<or> sched = []"
  shows "QuantumAnneal ops sched mcSteps trotterSlices T nSpins conf neighbors g = Inr conf"
proof -
  have "foldR (Quantum_field ops neighbors mcSteps trotterSlices T nSpins) sched st = Inr st" for st
  proof (cases "sched = []")
    case True
    then show ?thesis by simp
  next
    case False
    with assms have "nat mcSteps = 0" by simp
    then show ?thesis by (intro foldR_id) (simp add: Quantum_field_def)
  qed
  then show ?thesis
    by (simp add: QuantumAnneal_def)
qed

lemma Quantum_slice_no_spins:
  assumes "nSpins \<le> 0" and "\<forall>g. fst (rng_permutation ops [] g) = []"
  shows "\<exists>g'. Quantum_slice ops neighbors nSpins perpJ T islice (conf, g) = Inr (conf, g')"
proof -
  obtain spins g' where p: "rng_permutation ops [] g = (spins, g')"
    by (cases "rng_permutation ops [] g")
  with assms(2) have "spins = []" by (metis fst_conv)
  with p assms(1) show ?thesis by (simp add: Quantum_slice_def)
qed

lemma Quantum_step_nothing:
  assumes "nSpins \<le> 0 \<or> trotterSlices \<le> 0" and "\<forall>g. fst (rng_permutation ops [] g) = []"
  shows "\<exists>g'. Quantum_step ops neighbors trotterSlices nSpins perpJ T step (conf, g) = Inr (conf, g')"
proof (cases "trotterSlices \<le> 0")
  case True
  obtain slices g' where p: "rng_permutation ops [] g = (slices, g')"
    by (cases "rng_permutation ops [] g")
  with assms(2) have "slices = []" by (metis fst_conv)
  with p True show ?thesis by (simp add: Quantum_step_def)
next
  case False
  with assms(1) have n: "nSpins \<le> 0" by simp
  obtain slices g' where p: "rng_permutation ops [0..<nat trotterSlices] g = (slices, g')"
    by (cases "rng_permutation ops [0..<nat trotterSlices] g")
  have "\<exists>g''. foldR (Quantum_slice ops neighbors nSpins perpJ T) slices (conf, g') = Inr (conf, g'')"
    by (intro foldR_keeps Quantum_slice_no_spins [OF n assms(2)])
  with p show ?thesis by (simp add: Quantum_step_def)
qed

lemma QuantumAnneal_nothing:
  assumes "nSpins \<le> 0 \<or> trotterSlices \<le> 0" and "\<forall>g. fst (rng_permutation ops [] g) = []"
  shows "QuantumAnneal ops sched mcSteps trotterSlices T nSpins conf neighbors g = Inr conf"
proof -
  have "\<exists>g'. Quantum_field ops neighbors mcSteps trotterSlices T nSpins field (conf, g) = Inr (conf, g')"
    for field g
    unfolding Quantum_field_def by (intro foldR_keeps Quantum_step_nothing assms)
  then have "\<exists>g'. foldR (Quantum_field ops neighbors mcSteps trotterSlices T nSpins) sched (conf, g)
      = Inr (conf, g')"
    by (intro foldR_keeps)
  then show ?thesis
    by (auto simp add: QuantumAnneal_def)
qed

lemma multispin_loop_empty: "multispin_loop ops nbs [] mcsteps st = Inr st"
  by (simp add: multispin_loop_def)

text \<open>
  C5 as stated (a zero-length schedule leaves the buffer of every entry point unchanged)
  fails for \<^verbatim>\<open>Anneal_multispin\<close>: on the matrix of 64 replicas of one spin \<open>-1.0\<close>, the
  packing sets every bit, no sweep runs, and the unpacking of spin 0 writes \<open>1.0\<close> in every
  row.
\<close>

theorem empty_schedule_multispin_rewrites:
  "pack (replicate 64 [- 1]) = Inr [- 1] \<and>
   multispin_loop (counting_rng 0) [[(0, 0)]] [] 1 ([- 1], replicate 64 0, [0], 2) =
     Inr ([- 1], replicate 64 0, [0], 2) \<and>
   foldR (unpack_col [- 1]) (butlast (unpack_indices [- 1])) (replicate 64 [- 1]) =
     Inr (replicate 64 [1]) \<and>
   Anneal_multispin (counting_rng 0) [] 1 (replicate 64 [- 1]) [[(0, 0)]] 0 \<noteq>
     Inr (replicate 64 [- 1])"
proof -
  have "Anneal_multispin (counting_rng 0) [] 1 (replicate 64 [- 1]) [[(0, 0)]] 0 = Inl OutOfBounds"
    using pack_minus_ones
    by (simp add: Anneal_multispin_def counting_rng_def multispin_loop_empty unpack_faults
        split: prod.splits)
  then show ?thesis
    using pack_minus_ones by (simp add: multispin_loop_empty)
qed

text \<open>
  C5, amended. With a zero-length schedule, \<^verbatim>\<open>Anneal\<close>, \<^verbatim>\<open>Anneal_parallel\<close> and
  \<^verbatim>\<open>QuantumAnneal\<close> return the configuration unchanged, whatever it is.
  \<^verbatim>\<open>Anneal_multispin\<close> runs no sweep either, but its packing and the unpacking of the spin
  indices \<open>0 .. nspins - 1\<close> rewrite every entry \<open>x\<close> of a 64-row matrix to 1.0 when
  \<open>x\<close> is nonzero and to 0.0 otherwise.
\<close>

theorem empty_schedule:
  "Anneal ops lc [] mcsteps svec nbs g c = Inr svec \<and>
   Anneal_parallel lc [] mcsteps svec nbs nthreads c' = Inr svec \<and>
   QuantumAnneal ops [] mcSteps trotterSlices T nSpins configurations neighbors g =
     Inr configurations \<and>
   (matrix64 n svec_mat \<longrightarrow>
     (\<exists>svec. pack svec_mat = Inr svec \<and>
        multispin_loop ops nbs [] mcsteps (svec, rands, sidx_shuff, g) =
          Inr (svec, rands, sidx_shuff, g) \<and>
        foldR (unpack_col svec) (butlast (unpack_indices svec)) svec_mat =
          Inr (map (map truth_value) svec_mat)))"
proof -
  have "\<exists>svec. pack svec_mat = Inr svec \<and>
        multispin_loop ops nbs [] mcsteps (svec, rands, sidx_shuff, g) =
          Inr (svec, rands, sidx_shuff, g) \<and>
        foldR (unpack_col svec) (butlast (unpack_indices svec)) svec_mat =
          Inr (map (map truth_value) svec_mat)" if "matrix64 n svec_mat"
    using pack_unpack_valid [OF that] by (auto simp add: multispin_loop_empty)
  then show ?thesis
    by (simp add: Anneal_no_sweeps Anneal_parallel_no_sweeps QuantumAnneal_no_sweeps)
qed

theorem empty_schedule_witness:
  "Anneal (counting_rng 0) (const_libc 0) [] 1 [1, - 1] [[(1, 1)], [(0, 1)]] 0 () = Inr [1, - 1] \<and>
   matrix64 1 (replicate 64 [- 1]) \<and>
   (\<exists>svec. pack (replicate 64 [- 1]) = Inr svec \<and>
      foldR (unpack_col svec) (butlast (unpack_indices svec)) (replicate 64 [- 1]) =
        Inr (map (map truth_value) (replicate 64 [- 1])))"
  using empty_schedule [of "counting_rng 0" "const_libc 0" 1 "[1, - 1]" "[[(1, 1)], [(0, 1)]]" 0 "()"
      _ _ _ _ _ _ _ _ 1 "replicate 64 [- 1]"]
    matrix64_minus_ones
  by blast

lemma counting_rng_empty: "\<forall>g. fst (rng_permutation (counting_rng u) [] g) = []"
  by (simp add: counting_rng_def)

text \<open>
  C9 as stated (every entry point fails with an error on a non-positive sweep, spin or
  slice count) fails: no entry point checks its counts. With a sweep count of 0 or -3, or
  with 0 Trotter slices, the calls return normally.
\<close>

theorem nonpositive_counts_not_rejected:
  "Anneal (counting_rng 0) (const_libc 0) [1] 0 [1, - 1] [[(1, 1)], [(0, 1)]] 0 () = Inr [1, - 1] \<and>
   Anneal_parallel (const_libc 0) [1] (- 3) [1, - 1] [[(1, 1)], [(0, 1)]] 1 () = Inr [1, - 1] \<and>
   QuantumAnneal (counting_rng 0) [1] 1 0 1 (- 1) [[1], [- 1]] [[(1, 1)], [(0, 1)]] 0 =
     Inr [[1], [- 1]]"
  using QuantumAnneal_nothing [OF _ counting_rng_empty, of "- 1" 0]
  by (simp add: Anneal_no_sweeps Anneal_parallel_no_sweeps)

text \<open>
  C9, amended. Called with a non-positive sweep count, \<^verbatim>\<open>Anneal\<close>, \<^verbatim>\<open>Anneal_parallel\<close>
  and \<^verbatim>\<open>QuantumAnneal\<close> return normally with the configuration unmodified; so does
  \<^verbatim>\<open>QuantumAnneal\<close> called with a non-positive spin count or Trotter-slice count (the
  generator permuting the empty range to the empty sequence).
\<close>

theorem nonpositive_counts_accepted:
  "(mcsteps \<le> 0 \<longrightarrow>
      Anneal ops lc sched mcsteps svec nbs g c = Inr svec \<and>
      Anneal_parallel lc sched mcsteps svec nbs nthreads c' = Inr svec \<and>
      QuantumAnneal ops sched mcsteps trotterSlices T nSpins configurations nbs g =
        Inr configurations) \<and>
   ((nSpins \<le> 0 \<or> trotterSlices \<le> 0) \<and> (\<forall>g. fst (rng_permutation ops [] g) = []) \<longrightarrow>
      QuantumAnneal ops sched mcSteps trotterSlices T nSpins configurations nbs g =
        Inr configurations)"
  by (simp add: Anneal_no_sweeps Anneal_parallel_no_sweeps QuantumAnneal_no_sweeps
      QuantumAnneal_nothing)

theorem nonpositive_counts_accepted_witness:
  "(0 :: int) \<le> 0 \<and>
   Anneal (counting_rng 0) (const_libc 0) [1] 0 [1, - 1] [[(1, 1)], [(0, 1)]] 0 () = Inr [1, - 1] \<and>
   ((2 :: int) \<le> 0 \<or> (0 :: int) \<le> 0) \<and> (\<forall>g. fst (rng_permutation (counting_rng 0) [] g) = []) \<and>
   QuantumAnneal (counting_rng 0) [1] 5 0 1 2 [[1], [- 1]] [[(1, 1)], [(0, 1)]] 0 = Inr [[1], [- 1]]"
  using nonpositive_counts_accepted [of 0 "counting_rng 0" "const_libc 0" "[1]" "[1, - 1]"
      "[[(1, 1)], [(0, 1)]]" 0 "()" 1 "()" 0 1 2 "[[1], [- 1]]" 5]
    counting_rng_empty
  by simp

section \<open>The multispin annealer against the sequential annealer\<close>

lemma shift_in_append: "shift_in (xs @ ys) w = shift_in ys (shift_in xs w)"
  by (simp add: shift_in_def)

lemma flipmask_prefix:
  assumes "length sign = 64"
  shows "n \<le> 64 \<Longrightarrow> 1 \<le> n \<Longrightarrow>
         foldR (flipmask_bit sign) [1..<n] w = Inr (shift_in (map ((!) sign) [1..<n]) w)"
proof (induction n)
  case 0
  then show ?case by simp
next
  case (Suc n)
  show ?case
  proof (cases "n = 0")
    case True
    then show ?thesis by simp
  next
    case False
    then have n: "1 \<le> n" "n \<le> 64" "n < length sign" using Suc.prems assms by simp_all
    have "foldR (flipmask_bit sign) [1..<n] w = Inr (shift_in (map ((!) sign) [1..<n]) w)"
      using n by (intro Suc.IH) simp_all
    moreover have "[1..<Suc n] = [1..<n] @ [n]" using n by simp
    moreover have "flipmask_bit sign n v = Inr (shift_in [sign ! n] v)" for v
      using n(3) by (simp add: flipmask_bit_def shift_in_def)
    ultimately show ?thesis
      by (simp add: foldR_snoc shift_in_append del: upt_Suc)
  qed
qed

lemma build_flipmask_eq:
  assumes "length sign = 64"
  shows "build_flipmask sign = Inr (shift_in sign 0)"
proof -
  have "map ((!) sign) [0..<length sign] = sign" by (rule map_nth)
  moreover have "[0..<64] = 0 # [1..<64]" by (simp add: upt_conv_Cons del: upt_Suc)
  ultimately have sign: "sign = sign ! 0 # map ((!) sign) [1..<64]"
    using assms by (metis list.simps(9))
  have init: "(if sign ! 0 then 1 else 0 :: 64 word) = shift_in [sign ! 0] 0"
    by (simp add: shift_in_def)
  have "build_flipmask sign = Inr (shift_in (map ((!) sign) [1..<64]) (shift_in [sign ! 0] 0))"
    using assms flipmask_prefix [OF assms, of 64 "if sign ! 0 then 1 else 0"]
    by (simp add: build_flipmask_def init del: upt_Suc)
  also have "shift_in (map ((!) sign) [1..<64]) (shift_in [sign ! 0] 0) =
             shift_in ([sign ! 0] @ map ((!) sign) [1..<64]) 0"
    by (simp only: shift_in_append)
  also have "[sign ! 0] @ map ((!) sign) [1..<64] = sign"
    using sign by simp
  finally show ?thesis .
qed

lemma shift_in_all_False: "shift_in (replicate n False) 0 = 0"
  by (induction n) (simp_all add: shift_in_def)

lemma multispin_sign_replicate:
  "multispin_sign (replicate 64 e) temp (replicate 64 u) = replicate 64 (exp_div_gt e temp u)"
  by (simp add: multispin_sign_def zip_replicate)


text \<open>The conversion to single precision at the numbers of the example below.\<close>

lemma to_float32_binade:
  assumes "2 powr of_int e \<le> \<bar>x\<bar>" and "\<bar>x\<bar> < 2 powr of_int (e + 1)"
  shows "to_float32 x =
         2 powr of_int (e - 23) * of_int (round_even (x / 2 powr of_int (e - 23)))"
proof -
  have "0 < (2 :: real) powr of_int e" by simp
  with assms(1) have pos: "0 < \<bar>x\<bar>" by linarith
  then have "\<lfloor>log 2 \<bar>x\<bar>\<rfloor> = e"
    using assms by (simp add: floor_log_eq_powr_iff)
  with pos show ?thesis
    by (simp add: to_float32_def Let_def)
qed

lemma round_even_int [simp]: "round_even (of_int n) = n"
  by (simp add: round_even_def)

lemma to_float32_minus_2_24: "to_float32 (- 16777216) = - 16777216"
  using to_float32_binade [of 24 "- 16777216"] round_even_int [of "- 8388608"] by simp

lemma to_float32_half: "to_float32 (1 / 2) = 1 / 2"
  using to_float32_binade [of "- 1" "1 / 2"] round_even_int [of 8388608]
  by (simp add: powr_neg_numeral)

lemma to_float32_2_24: "to_float32 16777216 = 16777216"
  using to_float32_binade [of 24 16777216] round_even_int [of 8388608] by simp

lemma to_float32_one: "to_float32 1 = 1"
  using to_float32_binade [of 0 1] round_even_int [of 8388608]
  by (simp add: powr_neg_numeral)

lemma to_float32_2_25: "to_float32 33554432 = 33554432"
  using to_float32_binade [of 25 33554432] round_even_int [of 8388608] by simp

lemma to_float32_tie: "to_float32 33554431 = 33554432"
proof -
  have "\<lfloor>33554431 / 2 :: real\<rfloor> = 16777215" by (simp add: floor_eq_iff)
  then have "round_even (33554431 / 2) = 16777216"
    by (simp add: round_even_def)
  then show ?thesis
    using to_float32_binade [of 24 33554431] by simp
qed

text \<open>With no rounding, the definitions with the conversion are those without it.\<close>

lemma Anneal32_exact: "Anneal32 (\<lambda>x. x) = Anneal"
proof -
  have n: "Anneal_nb32 (\<lambda>x. x) = Anneal_nb"
    by (simp add: Anneal_nb32_def Anneal_nb_def fun_eq_iff)
  have e: "Anneal_ediff32 (\<lambda>x. x) = Anneal_ediff"
    unfolding Anneal_ediff32_def Anneal_ediff_def n ..
  have d: "exp_div32_gt (\<lambda>x. x) = exp_div_gt"
    by (simp add: exp_div32_gt_def exp_div_gt_def fun_eq_iff)
  have v: "Anneal_visit32 (\<lambda>x. x) = Anneal_visit"
    unfolding Anneal_visit32_def Anneal_visit_def e d ..
  have s: "Anneal_sweep32 (\<lambda>x. x) = Anneal_sweep"
    unfolding Anneal_sweep32_def Anneal_sweep_def v ..
  have t: "Anneal_temp32 (\<lambda>x. x) = Anneal_temp"
    unfolding Anneal_temp32_def Anneal_temp_def s ..
  show ?thesis
    unfolding Anneal32_def Anneal_def t ..
qed

lemma exp_minus_one: "exp (- 1 :: real) \<le> 1 / 2"
proof -
  have "1 + 1 \<le> exp (1 :: real)" by (rule exp_ge_add_one_self)
  then have "inverse (exp (1 :: real)) \<le> inverse 2"
    by (intro le_imp_inverse_le) simp_all
  then show ?thesis by (simp add: exp_minus)
qed

lemma single_spin_ediffs:
  assumes "\<forall>p \<in> set row. fst p = 0"
  shows "multispin_ediffs [0] [row] 0 = Inr (replicate 64 (\<Sum>p\<leftarrow>row. - 2 * snd p))"
proof -
  have c: "contribution (replica k [0]) 0 p = - 2 * snd p" if "p \<in> set row" for p k
  proof -
    from that assms have "fst p = 0" by simp
    then show ?thesis
      by (cases p) (simp add: contribution_def replica_def replica_spin_def)
  qed
  have "(\<Sum>p\<leftarrow>row. contribution (replica k [0]) 0 p) = (\<Sum>p\<leftarrow>row. - 2 * snd p)" for k
    by (rule arg_cong [where f = sum_list]) (simp add: c cong: map_cong)
  moreover have "multispin_ediffs [0] [row] 0 =
      Inr (map (\<lambda>k. replicate 64 0 ! k + (\<Sum>p\<leftarrow>take (length row) ([row] ! 0).
              contribution (replica k [0]) 0 p)) [0..<64])"
    using multispin_nb_prefix [where svec = "[0]" and nbs = "[row]" and sidx = 0
        and ed = "replicate 64 0" and n = "length row"] assms
    by (simp add: multispin_ediffs_def maxnb_def)
  ultimately have "multispin_ediffs [0] [row] 0 =
      Inr (map (\<lambda>k. replicate 64 0 ! k + (\<Sum>p\<leftarrow>row. - 2 * snd p)) [0..<64])"
    by simp
  also have "map (\<lambda>k. replicate 64 (0 :: real) ! k + (\<Sum>p\<leftarrow>row. - 2 * snd p)) [0..<64] =
      map (\<lambda>k. (\<Sum>p\<leftarrow>row. - 2 * snd p)) [0..<64]"
    by (intro map_cong refl) simp
  finally show ?thesis
    by (simp add: map_replicate_const del: upt_Suc)
qed

lemma single_spin_no_flip:
  assumes "\<forall>p \<in> set row. fst p = 0" and "\<not> exp_div_gt (\<Sum>p\<leftarrow>row. - 2 * snd p) temp u"
  shows "multispin_loop (counting_rng u) [row] [temp] 1 ([0], replicate 64 u, [0], g) =
         Inr ([0], replicate 64 u, [0], Suc (Suc g))"
proof -
  have "multispin_visit (counting_rng u) [row] temp 0 ([0], replicate 64 u, g) =
         Inr ([0], replicate 64 u, Suc g)"
    using assms(2)
    by (simp add: multispin_visit_def single_spin_ediffs [OF assms(1)] multispin_sign_replicate
      build_flipmask_eq shift_in_all_False counting_rng_def)
  then have "multispin_sweep (counting_rng u) [row] temp 0 ([0], replicate 64 u, [0], g) =
         Inr ([0], replicate 64 u, [0], Suc (Suc g))"
    by (simp add: multispin_sweep_def) (simp add: counting_rng_def)
  then show ?thesis
    by (simp add: multispin_loop_def multispin_temp_def)
qed

lemma single_spin_flip:
  assumes "Anneal_ediff32 cfloat [1] nbs 0 = Inr e" and "0 \<le> e"
  shows "Anneal32 cfloat (counting_rng u) lc [temp] 1 [1] nbs g c = Inr [- 1]"
  using assms
  by (simp add: Anneal32_def Anneal_temp32_def Anneal_sweep32_def Anneal_visit32_def flip_def
      counting_rng_def)

text \<open>
  C3. The multispin annealer, run on 64 identical replicas, does not produce in every bit
  position the final configuration of \<^verbatim>\<open>Anneal\<close> run with the same visiting order and
  the same draws. One spin \<open>+1\<close> with the self-couplings \<open>-16777216\<close>, \<open>0.5\<close> and
  \<open>16777216\<close>, the schedule \<open>[1.0]\<close>, one sweep, and the draw \<open>1073741824 / 2147483647\<close>
  in both annealers: the couplings and the temperature are single-precision numbers, and the
  exact energy difference is \<open>-1\<close>. \<^verbatim>\<open>Anneal\<close> accumulates it in the single-precision
  \<^verbatim>\<open>ediff\<close>: \<open>33554432\<close>, then \<open>33554431\<close> rounded to \<open>33554432\<close>, then \<open>0\<close>; as
  \<open>ediff \<ge> 0\<close> it flips the spin to \<open>-1\<close>. \<^verbatim>\<open>Anneal_multispin\<close> accumulates in the
  double-precision \<^verbatim>\<open>ediffs\<close> and gets \<open>-1\<close> for every replica; \<open>exp (-1)\<close> is below the
  draw, so no bit is flipped and the 64 replicas stay at \<open>+1\<close>.

  The two annealers differ in a second way: \<^verbatim>\<open>Anneal_multispin\<close> has no branch for
  \<open>ediff \<ge> 0\<close>. At the temperature 0 with the self-coupling 0 (\<open>ediff = 0\<close>, where \<open>0/0\<close>
  is NaN), \<^verbatim>\<open>Anneal\<close> flips the spin and \<^verbatim>\<open>Anneal_multispin\<close> does not.
\<close>

theorem multispin_differs_from_sequential:
  "to_float32 (- 16777216) = - 16777216 \<and> to_float32 (1 / 2) = 1 / 2 \<and>
   to_float32 16777216 = 16777216 \<and> to_float32 1 = 1 \<and>
   to_float32 33554432 = 33554432 \<and> to_float32 33554431 = 33554432 \<and>
   Anneal_ediff [1] [[(0, - 16777216), (0, 1 / 2), (0, 16777216)]] 0 = Inr (- 1) \<and>
   Anneal_ediff32 to_float32 [1] [[(0, - 16777216), (0, 1 / 2), (0, 16777216)]] 0 = Inr 0 \<and>
   Anneal32 to_float32 (counting_rng (1073741824 / 2147483647)) (const_libc 1073741824) [1] 1 [1]
     [[(0, - 16777216), (0, 1 / 2), (0, 16777216)]] 0 () = Inr [- 1] \<and>
   pack (replicate 64 [0]) = Inr [0] \<and>
   map (\<lambda>k. replica k [0]) [0..<64] = replicate 64 [1] \<and>
   multispin_ediffs [0] [[(0, - 16777216), (0, 1 / 2), (0, 16777216)]] 0 =
     Inr (replicate 64 (- 1)) \<and>
   multispin_loop (counting_rng (1073741824 / 2147483647))
     [[(0, - 16777216), (0, 1 / 2), (0, 16777216)]] [1] 1
     ([0], replicate 64 (1073741824 / 2147483647), [0], 2) =
     Inr ([0], replicate 64 (1073741824 / 2147483647), [0], 4) \<and>
   Anneal32 to_float32 (counting_rng (1 / 2)) (const_libc 1073741824) [0] 1 [1] [[(0, 0)]] 0 () =
     Inr [- 1] \<and>
   multispin_loop (counting_rng (1 / 2)) [[(0, 0)]] [0] 1 ([0], replicate 64 (1 / 2), [0], 2) =
     Inr ([0], replicate 64 (1 / 2), [0], 4)"
proof -
  let ?nbs = "[[(0, - 16777216), (0, 1 / 2), (0, 16777216 :: real)]] :: nbs"
  have u: "[0..<3] = [0, 1, 2]" by (simp add: upt_rec)
  have r: "map (\<lambda>k. replica k [0]) [0..<64] = replicate 64 [1]"
    by (simp add: replica_def replica_spin_def map_replicate_const del: upt_Suc)
  have e: "Anneal_ediff [1] ?nbs 0 = Inr (- 1)"
    by (simp add: Anneal_ediff_def maxnb_def Anneal_nb_def rd2_def u)
  have e32: "Anneal_ediff32 to_float32 [1] ?nbs 0 = Inr 0"
    by (simp add: Anneal_ediff32_def maxnb_def Anneal_nb32_def rd2_def to_float32_minus_2_24 to_float32_half to_float32_2_24 to_float32_2_25 to_float32_tie u
        to_float32_def [of 0])
  have a32: "Anneal32 to_float32 (counting_rng (1073741824 / 2147483647)) (const_libc 1073741824)
      [1] 1 [1] ?nbs 0 () = Inr [- 1]"
    by (rule single_spin_flip [OF e32]) simp
  have ed: "multispin_ediffs [0] ?nbs 0 = Inr (replicate 64 (- 1))"
    using single_spin_ediffs [of "[(0, - 16777216), (0, 1 / 2), (0, 16777216)]"] by simp
  have "\<not> exp_div_gt (- 1) 1 (1073741824 / 2147483647)"
    using exp_minus_one by (simp add: exp_div_gt_def)
  then have m: "multispin_loop (counting_rng (1073741824 / 2147483647)) ?nbs [1] 1
      ([0], replicate 64 (1073741824 / 2147483647), [0], 2) =
      Inr ([0], replicate 64 (1073741824 / 2147483647), [0], 4)"
    using single_spin_no_flip [of "[(0, - 16777216), (0, 1 / 2), (0, 16777216)]" 1
        "1073741824 / 2147483647" 2]
    by simp
  have "Anneal_ediff32 to_float32 [1] [[(0, 0)]] 0 = Inr 0"
    by (simp add: Anneal_ediff32_def maxnb_def Anneal_nb32_def rd2_def to_float32_def [of 0])
  then have z32: "Anneal32 to_float32 (counting_rng (1 / 2)) (const_libc 1073741824) [0] 1 [1]
      [[(0, 0)]] 0 () = Inr [- 1]"
    by (rule single_spin_flip) simp
  have zm: "multispin_loop (counting_rng (1 / 2)) [[(0, 0)]] [0] 1
      ([0], replicate 64 (1 / 2), [0], 2) = Inr ([0], replicate 64 (1 / 2), [0], 4)"
    using single_spin_no_flip [of "[(0, 0)]" 0 "1 / 2" 2] by (simp add: exp_div_gt_def)
  note f = to_float32_minus_2_24 to_float32_half to_float32_2_24 to_float32_one
    to_float32_2_25 to_float32_tie
  from f e e32 a32 r ed m z32 zm pack_zeros show ?thesis
    by (intro conjI) simp_all
qed

section \<open>Spins stay \<open>+1\<close> or \<open>-1\<close>\<close>

lemma foldR_invariant:
  assumes "\<And>x s s'. I s \<Longrightarrow> f x s = Inr s' \<Longrightarrow> I s'" and "I s" and "foldR f xs s = Inr s'"
  shows "I s'"
  using assms(2,3)
proof (induction xs arbitrary: s)
  case Nil
  then show ?case by simp
next
  case (Cons x xs)
  from Cons.prems(2) obtain s1 where s1: "f x s = Inr s1" "foldR f xs s1 = Inr s'"
    by (cases "f x s") simp_all
  from assms(1) [OF Cons.prems(1) s1(1)] s1(2) show ?case
    by (rule Cons.IH)
qed

lemma flip_Inr:
  assumes "flip svec sidx = Inr svec'"
  shows "sidx < length svec \<and> svec' = svec[sidx := svec ! sidx * (- 1)]"
  using assms by (cases "sidx < length svec") (simp_all add: flip_def)

lemma Anneal_visit_cases:
  assumes "Anneal_visit lc nbs temp sidx (svec, c) = Inr (svec', c')"
  shows "svec' = svec \<or> (sidx < length svec \<and> svec' = svec[sidx := svec ! sidx * (- 1)])"
proof -
  from assms obtain ediff where e: "Anneal_ediff svec nbs sidx = Inr ediff"
    by (cases "Anneal_ediff svec nbs sidx") (simp_all add: Anneal_visit_def)
  obtain r c1 where r: "crand lc c = (r, c1)" by (cases "crand lc c")
  from assms e r have "flip svec sidx = Inr svec' \<or> svec' = svec"
    by (cases "flip svec sidx") (simp_all add: Anneal_visit_def split: if_splits)
  then show ?thesis
    using flip_Inr by blast
qed

lemma spins_ok_flip:
  assumes "spins_ok svec" and "sidx < length svec"
  shows "spins_ok (svec[sidx := svec ! sidx * (- 1)])"
proof -
  have "svec ! sidx = 1 \<or> svec ! sidx = - 1"
    using assms by (simp add: spins_ok_def)
  then have "svec ! sidx * (- 1) = 1 \<or> svec ! sidx * (- 1) = - 1" by auto
  moreover have "set (svec[sidx := svec ! sidx * (- 1)]) \<subseteq> insert (svec ! sidx * (- 1)) (set svec)"
    by (rule set_update_subset_insert)
  ultimately show ?thesis
    using assms(1) unfolding spins_ok_def by blast
qed

lemma Anneal_visit_spins_ok:
  assumes "spins_ok svec" and "Anneal_visit lc nbs temp sidx (svec, c) = Inr (svec', c')"
  shows "spins_ok svec'"
  using Anneal_visit_cases [OF assms(2)] assms(1) spins_ok_flip by blast

lemma Anneal_sweep_spins_ok:
  assumes "spins_ok (fst s)"
    and "Anneal_sweep (ops :: 'g rng) (lc :: 'c libc) nbs temp step s = Inr s'"
  shows "spins_ok (fst s')"
proof -
  obtain svec shuff g c where s: "s = (svec, shuff, g, c)" by (cases s)
  from assms(2) obtain v where v: "foldR (Anneal_visit lc nbs temp) shuff (svec, c) = Inr v"
    by (cases "foldR (Anneal_visit lc nbs temp) shuff (svec, c)") (simp_all add: s Anneal_sweep_def)
  have "spins_ok (fst v)"
  proof (rule foldR_invariant [where I = "\<lambda>t. spins_ok (fst t)", OF _ _ v])
    show "spins_ok (fst (svec, c))" using assms(1) s by simp
  next
    fix x and t t' :: "real list \<times> 'c"
    assume "spins_ok (fst t)" "Anneal_visit lc nbs temp x t = Inr t'"
    then show "spins_ok (fst t')"
      using Anneal_visit_spins_ok [of "fst t" lc nbs temp x "snd t" "fst t'" "snd t'"] by simp
  qed
  moreover have "fst s' = fst v"
    using assms(2) v by (auto simp add: s Anneal_sweep_def split: prod.splits)
  ultimately show ?thesis by simp
qed

lemma Anneal_spins_ok:
  assumes "spins_ok svec"
    and "Anneal (ops :: 'g rng) (lc :: 'c libc) sched mcsteps svec nbs g c = Inr svec'"
  shows "spins_ok svec'"
proof -
  obtain shuff g1 where p: "rng_permutation ops [0..<length svec] g = (shuff, g1)"
    by (cases "rng_permutation ops [0..<length svec] g")
  with assms(2) obtain s' where s': "foldR (Anneal_temp ops lc nbs mcsteps) sched (svec, shuff, g1, c) = Inr s'"
      and fst: "svec' = fst s'"
    by (cases "foldR (Anneal_temp ops lc nbs mcsteps) sched (svec, shuff, g1, c)")
       (auto simp add: Anneal_def split: prod.splits)
  have "spins_ok (fst s')"
  proof (rule foldR_invariant [where I = "\<lambda>t. spins_ok (fst t)", OF _ _ s'])
    show "spins_ok (fst (svec, shuff, g1, c))" using assms(1) by simp
  next
    fix temp and t t' :: "real list \<times> nat list \<times> 'g \<times> 'c"
    assume t: "spins_ok (fst t)" and run: "Anneal_temp ops lc nbs mcsteps temp t = Inr t'"
    show "spins_ok (fst t')"
    proof (rule foldR_invariant [where I = "\<lambda>t. spins_ok (fst t)", OF _ t])
      show "foldR (Anneal_sweep ops lc nbs temp) [0..<nat mcsteps] t = Inr t'"
        using run by (simp add: Anneal_temp_def)
    next
      fix step and u u' :: "real list \<times> nat list \<times> 'g \<times> 'c"
      assume "spins_ok (fst u)" "Anneal_sweep ops lc nbs temp step u = Inr u'"
      then show "spins_ok (fst u')" by (rule Anneal_sweep_spins_ok)
    qed
  qed
  with fst show ?thesis by simp
qed

lemma wr2_Inr:
  assumes "wr2 m k i v = Inr m'"
  shows "k < length m \<and> i < length (m ! k) \<and> m' = m[k := (m ! k)[i := v]]"
proof -
  from assms have k: "k < length m"
    by (cases "k < length m") (simp_all add: wr2_def)
  with assms have i: "i < length (m ! k)"
    by (cases "i < length (m ! k)") (simp_all add: wr2_def)
  with assms k show ?thesis by (simp add: wr2_def)
qed

lemma rd2_Inr:
  assumes "rd2 m k i = Inr x"
  shows "x = m ! k ! i"
proof -
  from assms have k: "k < length m"
    by (cases "k < length m") (simp_all add: rd2_def)
  with assms have i: "i < length (m ! k)"
    by (cases "i < length (m ! k)") (simp_all add: rd2_def)
  with assms k show ?thesis by (simp add: rd2_def)
qed

lemma Quantum_spin_cases:
  assumes "Quantum_spin ops neighbors perpJ T islice ispin (conf, g) = Inr (conf', g')"
  shows "conf' = conf \<or>
         (ispin < length conf \<and> islice < length (conf ! ispin) \<and>
          conf' = conf[ispin := (conf ! ispin)[islice := conf ! ispin ! islice * (- 1)]])"
proof -
  from assms obtain svec tvec nb_pairs r where
      "QuantumMetropolisAccept ops svec tvec ispin islice nb_pairs perpJ T g = Inr r"
    and fin: "(case r of (accept, g1) \<Rightarrow>
                 if accept
                 then bindR (rd2 conf ispin islice) (\<lambda>x.
                      bindR (wr2 conf ispin islice (x * (- 1))) (\<lambda>c. Inr (c, g1)))
                 else Inr (conf, g1)) = Inr (conf', g')"
    unfolding Quantum_spin_def prod.case bindR_eq_Inr by blast
  obtain acc g1 where r: "r = (acc, g1)" by (cases r)
  show ?thesis
  proof (cases acc)
    case False
    with fin r show ?thesis by simp
  next
    case True
    with fin r have "bindR (rd2 conf ispin islice) (\<lambda>x.
        bindR (wr2 conf ispin islice (x * (- 1))) (\<lambda>c. Inr (c, g1))) = Inr (conf', g')"
      by simp
    then obtain x c where x: "rd2 conf ispin islice = Inr x"
      and c: "wr2 conf ispin islice (x * (- 1)) = Inr c"
      and e: "Inr (c, g1) = (Inr (conf', g') :: (real list list \<times> 'a) result)"
      unfolding bindR_eq_Inr by blast
    from e have "c = conf'" by simp
    with c have w: "wr2 conf ispin islice (x * (- 1)) = Inr conf'" by simp
    from rd2_Inr [OF x] wr2_Inr [OF w] show ?thesis by simp
  qed
qed

lemma conf_ok_flip:
  assumes "conf_ok conf" and "ispin < length conf" and "islice < length (conf ! ispin)"
  shows "conf_ok (conf[ispin := (conf ! ispin)[islice := conf ! ispin ! islice * (- 1)]])"
proof -
  have "spins_ok (conf ! ispin)"
    using assms(1,2) by (simp add: conf_ok_def)
  then have "spins_ok ((conf ! ispin)[islice := conf ! ispin ! islice * (- 1)])"
    using assms(3) by (rule spins_ok_flip)
  moreover have "set (conf[ispin := (conf ! ispin)[islice := conf ! ispin ! islice * (- 1)]]) \<subseteq>
      insert ((conf ! ispin)[islice := conf ! ispin ! islice * (- 1)]) (set conf)"
    by (rule set_update_subset_insert)
  ultimately show ?thesis
    using assms(1) unfolding conf_ok_def by blast
qed

lemma Quantum_spin_conf_ok:
  assumes "conf_ok (fst s)"
    and "Quantum_spin (ops :: 'g rng) neighbors perpJ T islice ispin s = Inr s'"
  shows "conf_ok (fst s')"
proof -
  obtain conf g where s: "s = (conf, g)" by (cases s)
  obtain conf' g' where s': "s' = (conf', g')" by (cases s')
  from assms(2) have "conf' = conf \<or>
         (ispin < length conf \<and> islice < length (conf ! ispin) \<and>
          conf' = conf[ispin := (conf ! ispin)[islice := conf ! ispin ! islice * (- 1)]])"
    unfolding s s' by (rule Quantum_spin_cases)
  then show ?thesis
  proof
    assume "conf' = conf"
    with assms(1) show ?thesis by (simp add: s s')
  next
    assume *: "ispin < length conf \<and> islice < length (conf ! ispin) \<and>
          conf' = conf[ispin := (conf ! ispin)[islice := conf ! ispin ! islice * (- 1)]]"
    have "conf_ok conf" using assms(1) by (simp add: s)
    then have "conf_ok (conf[ispin := (conf ! ispin)[islice := conf ! ispin ! islice * (- 1)]])"
      using * by (intro conf_ok_flip) simp_all
    with * show ?thesis by (simp add: s')
  qed
qed

lemma Quantum_slice_conf_ok:
  assumes "conf_ok (fst s)"
    and "Quantum_slice (ops :: 'g rng) neighbors nSpins perpJ T islice s = Inr s'"
  shows "conf_ok (fst s')"
proof -
  obtain conf g where s: "s = (conf, g)" by (cases s)
  obtain spins g1 where p: "rng_permutation ops [0..<nat nSpins] g = (spins, g1)"
    by (cases "rng_permutation ops [0..<nat nSpins] g")
  have run: "foldR (Quantum_spin ops neighbors perpJ T islice) spins (conf, g1) = Inr s'"
    using assms(2) by (simp add: s Quantum_slice_def p)
  show ?thesis
  proof (rule foldR_invariant [where I = "\<lambda>t. conf_ok (fst t)", OF _ _ run])
    show "conf_ok (fst (conf, g1))" using assms(1) s by simp
  next
    fix ispin and t t' :: "real list list \<times> 'g"
    assume "conf_ok (fst t)" "Quantum_spin ops neighbors perpJ T islice ispin t = Inr t'"
    then show "conf_ok (fst t')" by (rule Quantum_spin_conf_ok)
  qed
qed

lemma Quantum_step_conf_ok:
  assumes "conf_ok (fst s)"
    and "Quantum_step (ops :: 'g rng) neighbors trotterSlices nSpins perpJ T step s = Inr s'"
  shows "conf_ok (fst s')"
proof -
  obtain conf g where s: "s = (conf, g)" by (cases s)
  obtain slices g1 where p: "rng_permutation ops [0..<nat trotterSlices] g = (slices, g1)"
    by (cases "rng_permutation ops [0..<nat trotterSlices] g")
  have run: "foldR (Quantum_slice ops neighbors nSpins perpJ T) slices (conf, g1) = Inr s'"
    using assms(2) by (simp add: s Quantum_step_def p)
  show ?thesis
  proof (rule foldR_invariant [where I = "\<lambda>t. conf_ok (fst t)", OF _ _ run])
    show "conf_ok (fst (conf, g1))" using assms(1) s by simp
  next
    fix islice and t t' :: "real list list \<times> 'g"
    assume "conf_ok (fst t)" "Quantum_slice ops neighbors nSpins perpJ T islice t = Inr t'"
    then show "conf_ok (fst t')" by (rule Quantum_slice_conf_ok)
  qed
qed

lemma QuantumAnneal_conf_ok:
  assumes "conf_ok conf"
    and "QuantumAnneal (ops :: 'g rng) sched mcSteps trotterSlices T nSpins conf neighbors g = Inr conf'"
  shows "conf_ok conf'"
proof -
  from assms(2) obtain s' where
    s': "foldR (Quantum_field ops neighbors mcSteps trotterSlices T nSpins) sched (conf, g) = Inr s'"
    and fst: "conf' = fst s'"
    by (cases "foldR (Quantum_field ops neighbors mcSteps trotterSlices T nSpins) sched (conf, g)")
       (auto simp add: QuantumAnneal_def)
  have "conf_ok (fst s')"
  proof (rule foldR_invariant [where I = "\<lambda>t. conf_ok (fst t)", OF _ _ s'])
    show "conf_ok (fst (conf, g))" using assms(1) by simp
  next
    fix field and t t' :: "real list list \<times> 'g"
    assume t: "conf_ok (fst t)"
      and run: "Quantum_field ops neighbors mcSteps trotterSlices T nSpins field t = Inr t'"
    show "conf_ok (fst t')"
    proof (rule foldR_invariant [where I = "\<lambda>t. conf_ok (fst t)", OF _ t])
      show "foldR (Quantum_step ops neighbors trotterSlices nSpins
              (perpJ_of trotterSlices T field) T) [0..<nat mcSteps] t = Inr t'"
        using run by (simp add: Quantum_field_def)
    next
      fix step and u u' :: "real list list \<times> 'g"
      assume "conf_ok (fst u)"
        "Quantum_step ops neighbors trotterSlices nSpins (perpJ_of trotterSlices T field) T step u = Inr u'"
      then show "conf_ok (fst u')" by (rule Quantum_step_conf_ok)
    qed
  qed
  with fst show ?thesis by simp
qed

text \<open>
  C8. In a run of \<^verbatim>\<open>Anneal\<close> or \<^verbatim>\<open>QuantumAnneal\<close> that starts from a configuration whose
  entries are all \<open>+1\<close> or \<open>-1\<close>, every entry is \<open>+1\<close> or \<open>-1\<close> after every visit of a
  spin and at the end of the run: the visit of a spin, which is the only place where the
  configuration is written, leaves it unchanged or multiplies the visited entry by \<open>-1\<close>.
\<close>

theorem spins_stay_plus_or_minus_one:
  "(Anneal_visit lc nbs temp sidx (svec, c) = Inr (svec', c') \<longrightarrow>
      svec' = svec \<or> (sidx < length svec \<and> svec' = svec[sidx := svec ! sidx * (- 1)])) \<and>
   (spins_ok svec \<and> Anneal_visit lc nbs temp sidx (svec, c) = Inr (svec', c') \<longrightarrow>
      spins_ok svec') \<and>
   (spins_ok svec \<and> Anneal ops lc sched mcsteps svec nbs g c = Inr svec'' \<longrightarrow> spins_ok svec'') \<and>
   (Quantum_spin ops neighbors perpJ T islice ispin (conf, g) = Inr (conf', g') \<longrightarrow>
      conf' = conf \<or>
      (ispin < length conf \<and> islice < length (conf ! ispin) \<and>
       conf' = conf[ispin := (conf ! ispin)[islice := conf ! ispin ! islice * (- 1)]])) \<and>
   (conf_ok conf \<and> Quantum_spin ops neighbors perpJ T islice ispin (conf, g) = Inr (conf', g') \<longrightarrow>
      conf_ok conf') \<and>
   (conf_ok conf \<and>
    QuantumAnneal ops annealingSchedule mcSteps trotterSlices T nSpins conf neighbors g = Inr conf'' \<longrightarrow>
      conf_ok conf'')"
proof (intro conjI impI)
  assume "Anneal_visit lc nbs temp sidx (svec, c) = Inr (svec', c')"
  then show "svec' = svec \<or> (sidx < length svec \<and> svec' = svec[sidx := svec ! sidx * (- 1)])"
    by (rule Anneal_visit_cases)
next
  assume "spins_ok svec \<and> Anneal_visit lc nbs temp sidx (svec, c) = Inr (svec', c')"
  then have "spins_ok svec" and "Anneal_visit lc nbs temp sidx (svec, c) = Inr (svec', c')"
    by simp_all
  then show "spins_ok svec'"
    by (rule Anneal_visit_spins_ok)
next
  assume "spins_ok svec \<and> Anneal ops lc sched mcsteps svec nbs g c = Inr svec''"
  then have "spins_ok svec" and "Anneal ops lc sched mcsteps svec nbs g c = Inr svec''"
    by simp_all
  then show "spins_ok svec''"
    by (rule Anneal_spins_ok)
next
  assume "Quantum_spin ops neighbors perpJ T islice ispin (conf, g) = Inr (conf', g')"
  then show "conf' = conf \<or>
      (ispin < length conf \<and> islice < length (conf ! ispin) \<and>
       conf' = conf[ispin := (conf ! ispin)[islice := conf ! ispin ! islice * (- 1)]])"
    by (rule Quantum_spin_cases)
next
  assume "conf_ok conf \<and> Quantum_spin ops neighbors perpJ T islice ispin (conf, g) = Inr (conf', g')"
  then have "conf_ok (fst (conf, g))"
    and "Quantum_spin ops neighbors perpJ T islice ispin (conf, g) = Inr (conf', g')"
    by simp_all
  then have "conf_ok (fst (conf', g'))"
    by (rule Quantum_spin_conf_ok)
  then show "conf_ok conf'"
    by simp
next
  assume "conf_ok conf \<and>
    QuantumAnneal ops annealingSchedule mcSteps trotterSlices T nSpins conf neighbors g = Inr conf''"
  then have "conf_ok conf"
    and "QuantumAnneal ops annealingSchedule mcSteps trotterSlices T nSpins conf neighbors g = Inr conf''"
    by simp_all
  then show "conf_ok conf''"
    by (rule QuantumAnneal_conf_ok)
qed

lemma perpJ_of_positive: "0 < perpJ_of 2 1 1"
proof -
  have "0 < tanh (1 / 2 :: real)" by simp
  moreover have "tanh (1 / 2 :: real) < 1" by (rule tanh_real_lt_1)
  ultimately have "ln (tanh (1 / 2 :: real)) < 0" by (rule ln_less_zero)
  then show ?thesis by (simp add: perpJ_of_def)
qed

lemma Anneal_example:
  "Anneal (counting_rng 0) (const_libc 0) [1] 1 [1, - 1] [[(1, 1)], [(0, 1)]] 0 () = Inr [- 1, 1]"
  by (simp add: Anneal_def Anneal_temp_def Anneal_sweep_def Anneal_visit_def Anneal_ediff_def
      maxnb_def Anneal_nb_def rd2_def rdi_def flip_def exp_div_gt_def counting_rng_def
      const_libc_def)

lemma Quantum_spin_example_1:
  "Quantum_spin (counting_rng 0) [[(0, 0)]] (perpJ_of 2 1 1) 1 (Suc 0) 0 ([[1, - 1]], g) =
   Inr ([[1, 1]], g)"
  using perpJ_of_positive
  by (simp add: Quantum_spin_def column_def QuantumMetropolisAccept_def Quantum_ediff_def
      Quantum_ediff_nbs_def Quantum_nb_def trotter_nbs_def rdi_def Quantum_decide_def
      rd2_def wr2_def)

lemma Quantum_spin_example_2:
  "Quantum_spin (counting_rng 0) [[(0, 0)]] (perpJ_of 2 1 1) 1 0 0 ([[1, 1]], g) =
   Inr ([[- 1, 1]], Suc g)"
  using perpJ_of_positive
  by (simp add: Quantum_spin_def column_def QuantumMetropolisAccept_def Quantum_ediff_def
      Quantum_ediff_nbs_def Quantum_nb_def trotter_nbs_def rdi_def Quantum_decide_def
      rd2_def wr2_def counting_rng_def)

lemma counting_rng_permutation:
  "rng_permutation (counting_rng u) xs g = (rev xs, Suc g)"
  by (simp add: counting_rng_def)

lemma QuantumAnneal_example:
  "QuantumAnneal (counting_rng 0) [1] 1 2 1 1 [[1, - 1]] [[(0, 0)]] 0 = Inr [[- 1, 1]]"
proof -
  have "Quantum_step (counting_rng 0) [[(0, 0)]] 2 1 (perpJ_of 2 1 1) 1 0 ([[1, - 1]], 0) =
        Inr ([[- 1, 1]], 4)"
  proof -
    have "[0..<2] = [0, Suc 0]" by (simp add: upt_rec)
    then show ?thesis
      by (simp add: Quantum_step_def Quantum_slice_def counting_rng_permutation
          Quantum_spin_example_1 Quantum_spin_example_2)
  qed
  then show ?thesis
    by (simp add: QuantumAnneal_def Quantum_field_def)
qed

theorem spins_stay_plus_or_minus_one_witness:
  "spins_ok [1, - 1] \<and>
   Anneal (counting_rng 0) (const_libc 0) [1] 1 [1, - 1] [[(1, 1)], [(0, 1)]] 0 () = Inr [- 1, 1] \<and>
   spins_ok [- 1, 1] \<and>
   conf_ok [[1, - 1]] \<and>
   QuantumAnneal (counting_rng 0) [1] 1 2 1 1 [[1, - 1]] [[(0, 0)]] 0 = Inr [[- 1, 1]] \<and>
   conf_ok [[- 1, 1]]"
proof -
  have a: "spins_ok [1, - 1]" and b: "conf_ok [[1, - 1]]"
    by (simp_all add: spins_ok_def conf_ok_def)
  note t = spins_stay_plus_or_minus_one [where svec = "[1, - 1]" and ops = "counting_rng 0"
      and lc = "const_libc 0" and sched = "[1]" and mcsteps = 1 and nbs = "[[(1, 1)], [(0, 1)]]"
      and g = 0 and c = "()" and svec'' = "[- 1, 1]" and conf = "[[1, - 1]]"
      and annealingSchedule = "[1]" and mcSteps = 1 and trotterSlices = 2 and T = 1 and nSpins = 1
      and neighbors = "[[(0, 0)]]" and conf'' = "[[- 1, 1]]"]
  from t a Anneal_example have "spins_ok [- 1, 1]" by blast
  moreover from t b QuantumAnneal_example have "conf_ok [[- 1, 1]]" by blast
  ultimately show ?thesis
    using a b Anneal_example QuantumAnneal_example by blast
qed

end
